theory Spec2Isabelle
  imports Main "HOL-Library.Word"
begin

unbundle bit_operations_syntax

section \<open>Machine model\<close>

text \<open>
  The file \<^verbatim>\<open>source/intel/intrin/crc32c_sse42_asm.c\<close> computes CRC32C with the x86-64
  instructions CRC32B, CRC32Q and PCLMULQDQ (inline assembly) and with AVX-512 intrinsics.
  Memory is a total map from byte addresses to bytes, a pointer is an address, C's
  \<^verbatim>\<open>int length\<close> is an \<open>int\<close> (it only ever decreases towards 0, so no wrap-around is
  involved), and \<^verbatim>\<open>uint32_t\<close>, 64-bit general registers and 128-bit xmm registers are
  words of that width.
\<close>

type_synonym u8 = "8 word"
type_synonym u32 = "32 word"
type_synonym u64 = "64 word"
type_synonym u128 = "128 word"
type_synonym memory = "nat \<Rightarrow> u8"

subsection \<open>The CRC32 instruction\<close>

text \<open>
  The CRC32 instruction of SSE4.2 divides by the Castagnoli polynomial \<open>0x11EDC6F41\<close> on
  bit-reflected operands. In the reflected domain this is the bit-serial register below:
  the reflected polynomial is \<open>0x82F63B78\<close>, and the source operand enters least
  significant bit first. CRC32B takes 8 bits of data, CRC32Q takes 64; CRC32Q reads only
  the low 32 bits of its destination register and zero-extends its result.
\<close>

definition crc_shift1 :: "u32 \<Rightarrow> u32" where
  "crc_shift1 c = (if bit c 0 then drop_bit 1 c XOR 0x82F63B78 else drop_bit 1 c)"

fun crc_bits :: "nat \<Rightarrow> u32 \<Rightarrow> u64 \<Rightarrow> u32" where
  "crc_bits 0 c d = c"
| "crc_bits (Suc n) c d = crc_bits n (crc_shift1 (c XOR ucast (d AND 1))) (drop_bit 1 d)"

definition CRC32B :: "u32 \<Rightarrow> u8 \<Rightarrow> u32" where
  "CRC32B crc b = crc_bits 8 crc (ucast b)"

definition CRC32Q :: "u64 \<Rightarrow> u64 \<Rightarrow> u64" where
  "CRC32Q dst src = ucast (crc_bits 64 (ucast dst) src)"

subsection \<open>Carry-less multiplication\<close>

text \<open>PCLMULQDQ: the product of two 64-bit polynomials over GF(2), 128 bits wide.\<close>

fun clmul_bits :: "nat \<Rightarrow> u128 \<Rightarrow> u64 \<Rightarrow> u128" where
  "clmul_bits 0 a b = 0"
| "clmul_bits (Suc n) a b =
     (if bit b 0 then a else 0) XOR clmul_bits n (push_bit 1 a) (drop_bit 1 b)"

definition clmul :: "u64 \<Rightarrow> u64 \<Rightarrow> u128" where
  "clmul a b = clmul_bits 64 (ucast a) b"

definition lo64 :: "u128 \<Rightarrow> u64" where
  "lo64 x = ucast x"

definition hi64 :: "u128 \<Rightarrow> u64" where
  "hi64 x = ucast (drop_bit 64 x)"

text \<open>
  \<^verbatim>\<open>_mm_clmulepi64_si128(a, b, imm)\<close> (and \<^verbatim>\<open>pclmulqdq $imm, b, a\<close>): bit 0 of the
  immediate selects the quadword of \<open>a\<close>, bit 4 the quadword of \<open>b\<close>.
\<close>

definition mm_clmulepi64_si128 :: "u128 \<Rightarrow> u128 \<Rightarrow> u8 \<Rightarrow> u128" where
  "mm_clmulepi64_si128 a b imm =
     clmul (if bit imm 0 then hi64 a else lo64 a) (if bit imm 4 then hi64 b else lo64 b)"

subsection \<open>Loads\<close>

text \<open>x86 is little-endian: the byte at the lowest address is the least significant.\<close>

fun load_le :: "memory \<Rightarrow> nat \<Rightarrow> nat \<Rightarrow> 'a::len word" where
  "load_le mem a 0 = 0"
| "load_le mem a (Suc n) = ucast (mem a) OR push_bit 8 (load_le mem (Suc a) n)"

definition load64 :: "memory \<Rightarrow> nat \<Rightarrow> u64" where
  "load64 mem a = load_le mem a 8"

definition load128 :: "memory \<Rightarrow> nat \<Rightarrow> u128" where
  "load128 mem a = load_le mem a 16"

section \<open>The stripe folders\<close>

text \<open>
  The three accumulators of a stripe folder: \<open>rcx\<close> (crc0), \<open>r11\<close> (crc1) and \<open>r10\<close>
  (crc2). One row of the assembly is three CRC32Q instructions, one per accumulator, at
  three displacements from \<open>in\<close>.
\<close>

type_synonym stripe_regs = "u64 \<times> u64 \<times> u64"

definition crc32q_row :: "memory \<Rightarrow> nat \<Rightarrow> stripe_regs \<Rightarrow> nat \<times> nat \<times> nat \<Rightarrow> stripe_regs" where
  "crc32q_row mem inp regs d =
     (case regs of (rcx, r11, r10) \<Rightarrow> case d of (d0, d1, d2) \<Rightarrow>
        (CRC32Q rcx (load64 mem (inp + d0)),
         CRC32Q r11 (load64 mem (inp + d1)),
         CRC32Q r10 (load64 mem (inp + d2))))"

text \<open>
  \<^verbatim>\<open>FOLD_K1K2(K1, K2)\<close>: crc0 and crc1 are multiplied by the constants with PCLMULQDQ,
  the low quadwords of the products go through CRC32Q from a zeroed register, and the
  three values are combined with XOR in \<open>ecx\<close>.
\<close>

definition FOLD_K1K2 :: "u32 \<Rightarrow> u32 \<Rightarrow> stripe_regs \<Rightarrow> u32" where
  "FOLD_K1K2 K1 K2 regs =
     (case regs of (rcx, r11, r10) \<Rightarrow>
        let r8 = (ucast K1 :: u64);
            r9 = (ucast K2 :: u64);
            xmm1 = (ucast rcx :: u128);
            xmm3 = (ucast r8 :: u128);
            xmm2 = (ucast r11 :: u128);
            xmm4 = (ucast r9 :: u128);
            xmm1 = mm_clmulepi64_si128 xmm1 xmm3 0x00;
            xmm2 = mm_clmulepi64_si128 xmm2 xmm4 0x00;
            rcx = (0 :: u64);
            r11 = (0 :: u64);
            r8 = lo64 xmm1;
            r9 = lo64 xmm2;
            rcx = CRC32Q rcx r8;
            r11 = CRC32Q r11 r9;
            ecx = (ucast rcx :: u32) XOR ucast r10;
            ecx = ecx XOR ucast r11
        in ecx)"

subsection \<open>256 bytes\<close>

definition rows_256 :: "(nat \<times> nat \<times> nat) list" where
  "rows_256 =
     [(0, 88, 176), (8, 96, 184), (16, 104, 192), (24, 112, 200), (32, 120, 208),
      (40, 128, 216), (48, 136, 224), (56, 144, 232), (64, 152, 240), (72, 160, 248)]"

definition s_crc32c_sse42_clmul_256 :: "memory \<Rightarrow> nat \<Rightarrow> u32 \<Rightarrow> u32" where
  "s_crc32c_sse42_clmul_256 mem input crc =
     (case foldl (crc32q_row mem input) (ucast crc, 0, 0) rows_256 of (rcx, r11, r10) \<Rightarrow>
        let rcx = CRC32Q rcx (load64 mem (input + 80));
            r11 = CRC32Q r11 (load64 mem (input + 168))
        in FOLD_K1K2 0x1b3d8f29 0x39d3b296 (rcx, r11, r10))"

subsection \<open>1024 bytes\<close>

definition rows_1024 :: "(nat \<times> nat \<times> nat) list" where
  "rows_1024 =
     [(0, 344, 680), (8, 352, 688), (16, 360, 696), (24, 368, 704),
      (32, 376, 712), (40, 384, 720), (48, 392, 728), (56, 400, 736)]"

text \<open>
  The loop counter \<open>r8d\<close> is decremented after the body and the loop is left when it
  reaches zero; both looping kernels enter with a positive constant. The prefetches have no
  effect on the result.
\<close>

fun loop_1024 :: "memory \<Rightarrow> nat \<Rightarrow> nat \<Rightarrow> stripe_regs \<Rightarrow> nat \<times> stripe_regs" where
  "loop_1024 mem 0 inp regs = (inp, regs)"
| "loop_1024 mem (Suc r8d) inp regs =
     (let regs = foldl (crc32q_row mem inp) regs rows_1024;
          inp = inp + 64
      in if r8d = 0 then (inp, regs) else loop_1024 mem r8d inp regs)"

definition s_crc32c_sse42_clmul_1024 :: "memory \<Rightarrow> nat \<Rightarrow> u32 \<Rightarrow> u32" where
  "s_crc32c_sse42_clmul_1024 mem input crc =
     (case loop_1024 mem 5 input (ucast crc, 0, 0) of (inp, regs) \<Rightarrow>
      case foldl (crc32q_row mem inp) regs [(0, 344, 680), (8, 352, 688)] of (rcx, r11, r10) \<Rightarrow>
        let rcx = CRC32Q rcx (load64 mem (inp + 16));
            r10 = CRC32Q r10 (load64 mem (inp + 696))
        in FOLD_K1K2 0xe417f38a 0x8f158014 (rcx, r11, r10))"

subsection \<open>3072 bytes\<close>

definition rows_3072 :: "(nat \<times> nat \<times> nat) list" where
  "rows_3072 =
     [(0, 1024, 2048), (8, 1032, 2056), (16, 1040, 2064), (24, 1048, 2072),
      (32, 1056, 2080), (40, 1064, 2088), (48, 1072, 2096), (56, 1080, 2104)]"

fun loop_3072 :: "memory \<Rightarrow> nat \<Rightarrow> nat \<Rightarrow> stripe_regs \<Rightarrow> nat \<times> stripe_regs" where
  "loop_3072 mem 0 inp regs = (inp, regs)"
| "loop_3072 mem (Suc r8d) inp regs =
     (let regs = foldl (crc32q_row mem inp) regs rows_3072;
          inp = inp + 64
      in if r8d = 0 then (inp, regs) else loop_3072 mem r8d inp regs)"

definition s_crc32c_sse42_clmul_3072 :: "memory \<Rightarrow> nat \<Rightarrow> u32 \<Rightarrow> u32" where
  "s_crc32c_sse42_clmul_3072 mem input crc =
     (case loop_3072 mem 16 input (ucast crc, 0, 0) of (inp, regs) \<Rightarrow>
        FOLD_K1K2 0xa51b6135 0x170076fa regs)"

section \<open>The wide-vector folder\<close>

text \<open>
  A \<^verbatim>\<open>__m512i\<close> is its four 128-bit lanes, lowest first; every AVX-512 operation the
  kernel uses works lane by lane.
\<close>

type_synonym m512 = "u128 \<times> u128 \<times> u128 \<times> u128"

definition mm512_loadu_si512 :: "memory \<Rightarrow> nat \<Rightarrow> m512" where
  "mm512_loadu_si512 mem a =
     (load128 mem a, load128 mem (a + 16), load128 mem (a + 32), load128 mem (a + 48))"

definition mm512_clmulepi64_epi128 :: "m512 \<Rightarrow> m512 \<Rightarrow> u8 \<Rightarrow> m512" where
  "mm512_clmulepi64_epi128 a b imm =
     (case a of (a0, a1, a2, a3) \<Rightarrow> case b of (b0, b1, b2, b3) \<Rightarrow>
        (mm_clmulepi64_si128 a0 b0 imm, mm_clmulepi64_si128 a1 b1 imm,
         mm_clmulepi64_si128 a2 b2 imm, mm_clmulepi64_si128 a3 b3 imm))"

text \<open>Truth table \<open>0x96\<close> of the ternary-logic instruction is the three-way XOR.\<close>

definition mm_ternarylogic_epi64_0x96 :: "u128 \<Rightarrow> u128 \<Rightarrow> u128 \<Rightarrow> u128" where
  "mm_ternarylogic_epi64_0x96 a b c = a XOR b XOR c"

definition mm512_ternarylogic_epi64_0x96 :: "m512 \<Rightarrow> m512 \<Rightarrow> m512 \<Rightarrow> m512" where
  "mm512_ternarylogic_epi64_0x96 a b c =
     (case a of (a0, a1, a2, a3) \<Rightarrow> case b of (b0, b1, b2, b3) \<Rightarrow>
      case c of (c0, c1, c2, c3) \<Rightarrow>
        (mm_ternarylogic_epi64_0x96 a0 b0 c0, mm_ternarylogic_epi64_0x96 a1 b1 c1,
         mm_ternarylogic_epi64_0x96 a2 b2 c2, mm_ternarylogic_epi64_0x96 a3 b3 c3))"

definition mm512_xor_si512 :: "m512 \<Rightarrow> m512 \<Rightarrow> m512" where
  "mm512_xor_si512 a b =
     (case a of (a0, a1, a2, a3) \<Rightarrow> case b of (b0, b1, b2, b3) \<Rightarrow>
        (a0 XOR b0, a1 XOR b1, a2 XOR b2, a3 XOR b3))"

text \<open>
  \<^verbatim>\<open>_mm512_castsi128_si512(_mm_cvtsi32_si128(crc))\<close>: the crc in the low 32 bits of lane
  0, the rest zero (the move that implements the conversion clears the upper bits).
\<close>

definition mm512_cast_cvtsi32 :: "u32 \<Rightarrow> m512" where
  "mm512_cast_cvtsi32 crc = (ucast crc, 0, 0, 0)"

definition mm512_extracti32x4_epi32 :: "m512 \<Rightarrow> nat \<Rightarrow> u128" where
  "mm512_extracti32x4_epi32 x i =
     (case x of (x0, x1, x2, x3) \<Rightarrow>
        if i = 0 then x0 else if i = 1 then x1 else if i = 2 then x2 else x3)"

definition mm_srli_si128 :: "u128 \<Rightarrow> nat \<Rightarrow> u128" where
  "mm_srli_si128 a n = drop_bit (8 * n) a"

definition mm_extract_epi32 :: "u128 \<Rightarrow> nat \<Rightarrow> u32" where
  "mm_extract_epi32 a i = ucast (drop_bit (32 * i) a)"

definition k1k2 :: m512 where
  "k1k2 = (let k = push_bit 64 0xb9e02b86 OR 0xdcb17aa4 in (k, k, k, k))"

definition k3k4 :: m512 where
  "k3k4 = (let k = push_bit 64 0x9e4addf8 OR 0x740eef02 in (k, k, k, k))"

definition k5k6 :: u128 where
  "k5k6 = push_bit 64 0x14cd00bd6 OR 0xf20c0dfe"

definition k7k8 :: u128 where
  "k7k8 = push_bit 64 0x000000000 OR 0xdd45aab8"

definition poly :: u128 where
  "poly = push_bit 64 0xdea713f1 OR 0x105ec76f1"

text \<open>The locals of \<^verbatim>\<open>crc32c_avx512\<close> that the two loops read and write.\<close>

record avx512_locals =
  av_input :: nat
  av_length :: int
  av_x1 :: m512
  av_x2 :: m512
  av_x3 :: m512
  av_x4 :: m512

text \<open>\<^verbatim>\<open>while (length >= 256)\<close>: parallel fold of blocks of 256.\<close>

function fold_256_loop :: "memory \<Rightarrow> m512 \<Rightarrow> avx512_locals \<Rightarrow> avx512_locals" where
  "fold_256_loop mem x0 s =
     (if av_length s \<ge> 256 then
        let x5 = mm512_clmulepi64_epi128 (av_x1 s) x0 0x00;
            x6 = mm512_clmulepi64_epi128 (av_x2 s) x0 0x00;
            x7 = mm512_clmulepi64_epi128 (av_x3 s) x0 0x00;
            x8 = mm512_clmulepi64_epi128 (av_x4 s) x0 0x00;
            x1 = mm512_clmulepi64_epi128 (av_x1 s) x0 0x11;
            x2 = mm512_clmulepi64_epi128 (av_x2 s) x0 0x11;
            x3 = mm512_clmulepi64_epi128 (av_x3 s) x0 0x11;
            x4 = mm512_clmulepi64_epi128 (av_x4 s) x0 0x11;
            y5 = mm512_loadu_si512 mem (av_input s + 0x00);
            y6 = mm512_loadu_si512 mem (av_input s + 0x40);
            y7 = mm512_loadu_si512 mem (av_input s + 0x80);
            y8 = mm512_loadu_si512 mem (av_input s + 0xC0);
            x1 = mm512_ternarylogic_epi64_0x96 x1 x5 y5;
            x2 = mm512_ternarylogic_epi64_0x96 x2 x6 y6;
            x3 = mm512_ternarylogic_epi64_0x96 x3 x7 y7;
            x4 = mm512_ternarylogic_epi64_0x96 x4 x8 y8
        in fold_256_loop mem x0
             \<lparr>av_input = av_input s + 256, av_length = av_length s - 256,
              av_x1 = x1, av_x2 = x2, av_x3 = x3, av_x4 = x4\<rparr>
      else s)"
  by pat_completeness auto
termination
  by (relation "measure (\<lambda>(mem, x0, s). nat (av_length s))") auto

text \<open>\<^verbatim>\<open>while (length >= 64)\<close>: single fold of blocks of 64.\<close>

function fold_64_loop :: "memory \<Rightarrow> m512 \<Rightarrow> avx512_locals \<Rightarrow> avx512_locals" where
  "fold_64_loop mem x0 s =
     (if av_length s \<ge> 64 then
        let x2 = mm512_loadu_si512 mem (av_input s);
            x5 = mm512_clmulepi64_epi128 (av_x1 s) x0 0x00;
            x1 = mm512_clmulepi64_epi128 (av_x1 s) x0 0x11;
            x1 = mm512_ternarylogic_epi64_0x96 x1 x2 x5
        in fold_64_loop mem x0
             (s\<lparr>av_input := av_input s + 64, av_length := av_length s - 64,
                av_x1 := x1, av_x2 := x2\<rparr>)
      else s)"
  by pat_completeness auto
termination
  by (relation "measure (\<lambda>(mem, x0, s). nat (av_length s))") auto

text \<open>The loads, the two loops and the fold of four lanes into one, up to the reduction.\<close>

definition crc32c_avx512_folds :: "memory \<Rightarrow> nat \<Rightarrow> int \<Rightarrow> u32 \<Rightarrow> avx512_locals" where
  "crc32c_avx512_folds mem input len crc =
     (let x1 = mm512_loadu_si512 mem (input + 0x00);
          x2 = mm512_loadu_si512 mem (input + 0x40);
          x3 = mm512_loadu_si512 mem (input + 0x80);
          x4 = mm512_loadu_si512 mem (input + 0xC0);
          x1 = mm512_xor_si512 x1 (mm512_cast_cvtsi32 crc);
          x0 = k1k2;
          s = fold_256_loop mem x0
                \<lparr>av_input = input + 256, av_length = len - 256,
                 av_x1 = x1, av_x2 = x2, av_x3 = x3, av_x4 = x4\<rparr>;
          x0 = k3k4;
          x5 = mm512_clmulepi64_epi128 (av_x1 s) x0 0x00;
          x1 = mm512_clmulepi64_epi128 (av_x1 s) x0 0x11;
          x1 = mm512_ternarylogic_epi64_0x96 x1 (av_x2 s) x5;
          x5 = mm512_clmulepi64_epi128 x1 x0 0x00;
          x1 = mm512_clmulepi64_epi128 x1 x0 0x11;
          x1 = mm512_ternarylogic_epi64_0x96 x1 (av_x3 s) x5;
          x5 = mm512_clmulepi64_epi128 x1 x0 0x00;
          x1 = mm512_clmulepi64_epi128 x1 x0 0x11;
          x1 = mm512_ternarylogic_epi64_0x96 x1 (av_x4 s) x5
      in fold_64_loop mem x0 (s\<lparr>av_x1 := x1\<rparr>))"

text \<open>From 512 bits to 128, to 64, and the Barrett reduction to 32.\<close>

definition avx512_reduce :: "m512 \<Rightarrow> u32" where
  "avx512_reduce x1 =
     (let a0 = k5k6;
          a1 = mm512_extracti32x4_epi32 x1 0;
          a2 = mm512_extracti32x4_epi32 x1 1;
          a3 = mm_clmulepi64_si128 a1 a0 0x00;
          a1 = mm_clmulepi64_si128 a1 a0 0x11;
          a1 = mm_ternarylogic_epi64_0x96 a1 a3 a2;
          a2 = mm512_extracti32x4_epi32 x1 2;
          a3 = mm_clmulepi64_si128 a1 a0 0x00;
          a1 = mm_clmulepi64_si128 a1 a0 0x11;
          a1 = mm_ternarylogic_epi64_0x96 a1 a3 a2;
          a2 = mm512_extracti32x4_epi32 x1 3;
          a3 = mm_clmulepi64_si128 a1 a0 0x00;
          a1 = mm_clmulepi64_si128 a1 a0 0x11;
          a1 = mm_ternarylogic_epi64_0x96 a1 a3 a2;
          a2 = mm_clmulepi64_si128 a1 a0 0x10;
          a3 = (push_bit 64 0xFFFFFFFF OR 0xFFFFFFFF :: u128);
          a1 = mm_srli_si128 a1 8;
          a1 = a1 XOR a2;
          a0 = (ucast (lo64 k7k8) :: u128);
          a2 = mm_srli_si128 a1 4;
          a1 = a1 AND a3;
          a1 = mm_clmulepi64_si128 a1 a0 0x00;
          a1 = a1 XOR a2;
          a0 = poly;
          a2 = a1 AND a3;
          a2 = mm_clmulepi64_si128 a2 a0 0x10;
          a2 = a2 AND a3;
          a2 = mm_clmulepi64_si128 a2 a0 0x00;
          a1 = a1 XOR a2
      in mm_extract_epi32 a1 1)"

definition crc32c_avx512 :: "memory \<Rightarrow> nat \<Rightarrow> int \<Rightarrow> u32 \<Rightarrow> u32" where
  "crc32c_avx512 mem input len crc = avx512_reduce (av_x1 (crc32c_avx512_folds mem input len crc))"

section \<open>The dispatcher\<close>

text \<open>The four file-scope flags, and the probe \<^verbatim>\<open>aws_cpu_has_feature\<close> of aws-c-common.\<close>

record capability_cache =
  detection_performed :: bool
  detected_clmul :: bool
  detected_sse42 :: bool
  detected_avx512 :: bool

datatype aws_cpu_feature = AWS_CPU_FEATURE_CLMUL | AWS_CPU_FEATURE_SSE_4_2 | AWS_CPU_FEATURE_AVX512

definition initial_cache :: capability_cache where
  "initial_cache = \<lparr>detection_performed = False, detected_clmul = False,
                    detected_sse42 = False, detected_avx512 = False\<rparr>"

definition detect :: "(aws_cpu_feature \<Rightarrow> bool) \<Rightarrow> capability_cache \<Rightarrow> capability_cache" where
  "detect aws_cpu_has_feature g =
     (if \<not> detection_performed g then
        \<lparr>detection_performed = True,
         detected_clmul = aws_cpu_has_feature AWS_CPU_FEATURE_CLMUL,
         detected_sse42 = aws_cpu_has_feature AWS_CPU_FEATURE_SSE_4_2,
         detected_avx512 = aws_cpu_has_feature AWS_CPU_FEATURE_AVX512\<rparr>
      else g)"

text \<open>\<^verbatim>\<open>while (n-- > 0) { CRC32B (input), crc; input++; }\<close>\<close>

function crc32b_loop :: "memory \<Rightarrow> nat \<Rightarrow> int \<Rightarrow> u32 \<Rightarrow> nat \<times> u32" where
  "crc32b_loop mem input n crc =
     (if n > 0 then crc32b_loop mem (input + 1) (n - 1) (CRC32B crc (mem input))
      else (input, crc))"
  by pat_completeness auto
termination
  by (relation "measure (\<lambda>(mem, input, n, crc). nat n)") auto

text \<open>\<^verbatim>\<open>while (length >= 8) { CRC32Q (input), rcx; input += 8; length -= 8; }\<close>\<close>

function crc32q_loop :: "memory \<Rightarrow> nat \<Rightarrow> int \<Rightarrow> u32 \<Rightarrow> nat \<times> int \<times> u32" where
  "crc32q_loop mem input len crc =
     (if len \<ge> 8 then
        crc32q_loop mem (input + 8) (len - 8) (ucast (CRC32Q (ucast crc) (load64 mem input)))
      else (input, len, crc))"
  by pat_completeness auto
termination
  by (relation "measure (\<lambda>(mem, input, len, crc). nat len)") auto

text \<open>
  The three loops over blocks of 3072, 1024 and 256 bytes have one shape,
  \<^verbatim>\<open>while (length >= N) { crc = folder(input, crc); input += N; length -= N; }\<close>,
  with \<open>N\<close> a positive constant.
\<close>

function clmul_loop ::
  "(memory \<Rightarrow> nat \<Rightarrow> u32 \<Rightarrow> u32) \<Rightarrow> nat \<Rightarrow> memory \<Rightarrow> nat \<Rightarrow> int \<Rightarrow> u32 \<Rightarrow> nat \<times> int \<times> u32" where
  "clmul_loop folder N mem input len crc =
     (if len \<ge> int N \<and> N > 0 then
        clmul_loop folder N mem (input + N) (len - int N) (folder mem input crc)
      else (input, len, crc))"
  by pat_completeness auto
termination
  by (relation "measure (\<lambda>(folder, N, mem, input, len, crc). nat len)") auto

text \<open>
  The block guarded by \<^verbatim>\<open>detected_clmul\<close>. It either returns from the function (\<open>Inl\<close>
  of the returned value: the early return of the wide-vector branch when nothing remains)
  or falls through to the scalar loops (\<open>Inr\<close> of the updated \<open>input\<close>, \<open>length\<close> and
  \<open>crc\<close>).
\<close>

definition clmul_block ::
  "capability_cache \<Rightarrow> memory \<Rightarrow> nat \<Rightarrow> int \<Rightarrow> u32 \<Rightarrow> u32 + nat \<times> int \<times> u32" where
  "clmul_block g mem input len crc =
     (if detected_clmul g then
        if detected_avx512 g then
          if len \<ge> 256 then
            let chunk_size = len AND NOT 63;
                crc = NOT (crc32c_avx512 mem input len crc);
                len = len - chunk_size
            in if len = 0 then Inl crc
               else Inr (input + nat chunk_size, len, crc)
          else Inr (input, len, crc)
        else if detected_sse42 g then
          case clmul_loop s_crc32c_sse42_clmul_3072 3072 mem input len crc of
            (input, len, crc) \<Rightarrow>
          case clmul_loop s_crc32c_sse42_clmul_1024 1024 mem input len crc of
            (input, len, crc) \<Rightarrow>
          Inr (clmul_loop s_crc32c_sse42_clmul_256 256 mem input len crc)
        else Inr (input, len, crc)
      else Inr (input, len, crc))"

definition aws_checksums_crc32c_hw ::
  "(aws_cpu_feature \<Rightarrow> bool) \<Rightarrow> capability_cache \<Rightarrow> memory \<Rightarrow> nat \<Rightarrow> int \<Rightarrow> u32
     \<Rightarrow> u32 \<times> capability_cache" where
  "aws_checksums_crc32c_hw aws_cpu_has_feature g mem input len previousCrc32 =
     (let g = detect aws_cpu_has_feature g;
          crc = NOT previousCrc32
      in if len < 8 then
           (case crc32b_loop mem input len crc of (input, crc) \<Rightarrow> (NOT crc, g))
         else
           let input_alignment = int input AND 0x7;
               leading = (8 - input_alignment) AND 0x7;
               len = len - leading
           in case crc32b_loop mem input leading crc of (input, crc) \<Rightarrow>
              case clmul_block g mem input len crc of
                Inl crc \<Rightarrow> (crc, g)
              | Inr (input, len, crc) \<Rightarrow>
                  (case crc32q_loop mem input len crc of (input, len, crc) \<Rightarrow>
                   case crc32b_loop mem input len crc of (input, crc) \<Rightarrow> (NOT crc, g)))"

section \<open>Sequences of calls and test memories\<close>

text \<open>
  One call of the entry point: the probe in force, the memory, and the three arguments.
  \<open>run_calls\<close> threads the file-scope flags through a sequence of calls.
\<close>

type_synonym hw_call = "(aws_cpu_feature \<Rightarrow> bool) \<times> memory \<times> nat \<times> int \<times> u32"

fun run_calls :: "capability_cache \<Rightarrow> hw_call list \<Rightarrow> capability_cache" where
  "run_calls g [] = g"
| "run_calls g ((cpu, mem, input, len, prev) # cs) =
     run_calls (snd (aws_checksums_crc32c_hw cpu g mem input len prev)) cs"

text \<open>The buffer of a call: the \<open>n\<close> bytes of memory from address \<open>input\<close> on.\<close>

definition buffer :: "memory \<Rightarrow> nat \<Rightarrow> nat \<Rightarrow> u8 list" where
  "buffer mem input n = map mem [input..<input + n]"

text \<open>
  The number of bytes before the first 8-byte boundary, as the dispatcher computes it from
  the low three bits of the address.
\<close>

definition leading_bytes :: "nat \<Rightarrow> int" where
  "leading_bytes input = (8 - (int input AND 7)) AND 7"

text \<open>A memory holding the bytes \<open>bs\<close> from address \<open>base\<close> on, and zero elsewhere.\<close>

definition bytes_at :: "nat \<Rightarrow> u8 list \<Rightarrow> memory" where
  "bytes_at base bs a = (if base \<le> a \<and> a < base + length bs then bs ! (a - base) else 0)"

text \<open>A memory holding the bytes 0, 1, 2, ... (modulo 256) from address \<open>base\<close> on.\<close>

definition ramp_at :: "nat \<Rightarrow> memory" where
  "ramp_at base a = of_nat (a - base)"

section \<open>The widths of the stripes\<close>






section \<open>The software oracle\<close>

text \<open>
  Modelled from the spec: the software implementation \<^verbatim>\<open>aws_checksums_crc32c_sw\<close>, which
  is declared in \<^verbatim>\<open>crc_priv.h\<close> and defined in another file of the repository. The spec
  describes it as the standard reflected CRC32C over the polynomial \<open>0x1EDC6F41\<close> with the
  signature of the hardware entry point, the accumulator complemented on entry and on exit.
  In the reflected domain the polynomial reads \<open>0x82F63B78\<close>; a byte is XORed into the low
  bits of the accumulator, which is then shifted right eight times, the polynomial being
  XORed in whenever a one is shifted out.
\<close>

definition sw_shift :: "u32 \<Rightarrow> u32" where
  "sw_shift crc = (if crc AND 1 = 1 then drop_bit 1 crc XOR 0x82F63B78 else drop_bit 1 crc)"

definition sw_byte :: "u32 \<Rightarrow> u8 \<Rightarrow> u32" where
  "sw_byte crc b = (sw_shift ^^ 8) (crc XOR ucast b)"

definition aws_checksums_crc32c_sw :: "memory \<Rightarrow> nat \<Rightarrow> int \<Rightarrow> u32 \<Rightarrow> u32" where
  "aws_checksums_crc32c_sw mem input len previousCrc32 =
     NOT (foldl sw_byte (NOT previousCrc32) (buffer mem input (nat len)))"

section \<open>Multiplication modulo the polynomial\<close>

text \<open>
  Shifting the CRC register once with no data is multiplication by \<open>x\<close> modulo the
  polynomial, the word \<open>0x80000000\<close> standing for the polynomial 1. \<open>pmul c v\<close> is the
  product of \<open>c\<close> and \<open>v\<close> modulo the polynomial by Horner's rule, and \<open>xpow n\<close> is
  \<open>x\<close> to the \<open>n\<close> by repeated squaring. They serve to check the folding constants.
\<close>

fun pmul_bits :: "nat \<Rightarrow> u32 \<Rightarrow> u32 \<Rightarrow> u32 \<Rightarrow> u32" where
  "pmul_bits 0 acc c v = acc"
| "pmul_bits (Suc n) acc c v =
     pmul_bits n (crc_shift1 acc XOR (if bit c 0 then v else 0)) (drop_bit 1 c) v"

definition pmul :: "u32 \<Rightarrow> u32 \<Rightarrow> u32" where
  "pmul c v = pmul_bits 32 0 c v"

definition xpow_step :: "nat \<Rightarrow> u32 \<Rightarrow> u32" where
  "xpow_step n h = (if even n then pmul h h else crc_shift1 (pmul h h))"

function xpow :: "nat \<Rightarrow> u32" where
  "xpow n = (if n = 0 then 0x80000000 else xpow_step n (xpow (n div 2)))"
  by pat_completeness auto
termination
  by (relation "measure id") auto

text \<open>
  The three-accumulator rows of a stripe folder, seen as the quadwords each accumulator
  consumes: \<open>qwords mem a n\<close> are the \<open>n\<close> consecutive quadwords from address \<open>a\<close>.
\<close>

definition qwords :: "memory \<Rightarrow> nat \<Rightarrow> nat \<Rightarrow> u64 list" where
  "qwords mem a n = map (\<lambda>j. load64 mem (a + 8 * j)) [0..<n]"

definition crc32q_chain :: "u32 \<Rightarrow> u64 list \<Rightarrow> u32" where
  "crc32q_chain crc qs = foldl (\<lambda>c q. ucast (CRC32Q (ucast c) q)) crc qs"

text \<open>
  What \<^verbatim>\<open>FOLD_K1K2\<close> does to one accumulator: a carry-less multiplication by the constant,
  and CRC32Q of the low quadword of the product from a zeroed register.
\<close>

definition fold_mul :: "u32 \<Rightarrow> u32 \<Rightarrow> u32" where
  "fold_mul K c = crc_bits 64 0 (lo64 (clmul (ucast c) (ucast K)))"

text \<open>
  \<open>let_value\<close> is \<open>Let\<close> under another name: unfolding it after its argument has been
  evaluated lets the simplifier run the straight-line code of the wide-vector folder on
  numerals one statement at a time.
\<close>

definition let_value :: "'a \<Rightarrow> ('a \<Rightarrow> 'b) \<Rightarrow> 'b" where
  "let_value a f = f a"


section \<open>The detection block, statement by statement\<close>

text \<open>
  The entry point tests and sets its four file-scope flags with plain loads and stores and
  no synchronisation (its comment says so). For calls that overlap in time the block is
  therefore also modelled one statement at a time. A thread that has entered the function
  is at the test of \<open>detection_performed\<close>, at one of the four stores, or past the block in
  the body of the function. \<open>detect_stmt\<close> executes the statement a thread is at on the
  shared flags, and reports the flag and the value when the statement stores a capability
  flag.
\<close>

datatype detect_pc =
  At_test | At_store_clmul | At_store_sse42 | At_store_avx512 | At_store_performed | At_body

fun detect_stmt ::
  "(aws_cpu_feature \<Rightarrow> bool) \<Rightarrow> detect_pc \<Rightarrow> capability_cache
     \<Rightarrow> detect_pc \<times> capability_cache \<times> (aws_cpu_feature \<times> bool) option" where
  "detect_stmt aws_cpu_has_feature At_test g =
     (if \<not> detection_performed g then At_store_clmul else At_body, g, None)"
| "detect_stmt aws_cpu_has_feature At_store_clmul g =
     (At_store_sse42, g\<lparr>detected_clmul := aws_cpu_has_feature AWS_CPU_FEATURE_CLMUL\<rparr>,
      Some (AWS_CPU_FEATURE_CLMUL, aws_cpu_has_feature AWS_CPU_FEATURE_CLMUL))"
| "detect_stmt aws_cpu_has_feature At_store_sse42 g =
     (At_store_avx512, g\<lparr>detected_sse42 := aws_cpu_has_feature AWS_CPU_FEATURE_SSE_4_2\<rparr>,
      Some (AWS_CPU_FEATURE_SSE_4_2, aws_cpu_has_feature AWS_CPU_FEATURE_SSE_4_2))"
| "detect_stmt aws_cpu_has_feature At_store_avx512 g =
     (At_store_performed, g\<lparr>detected_avx512 := aws_cpu_has_feature AWS_CPU_FEATURE_AVX512\<rparr>,
      Some (AWS_CPU_FEATURE_AVX512, aws_cpu_has_feature AWS_CPU_FEATURE_AVX512))"
| "detect_stmt aws_cpu_has_feature At_store_performed g =
     (At_body, g\<lparr>detection_performed := True\<rparr>, None)"
| "detect_stmt aws_cpu_has_feature At_body g = (At_body, g, None)"

text \<open>
  A process: the shared flags, the position of every thread, and the log of the stores to
  the capability flags. An entry of the log is the storing thread, the flag (named by the
  feature it caches), the value stored, and the value \<open>detection_performed\<close> had at the
  moment of the store.
\<close>

type_synonym flag_store = "nat \<times> aws_cpu_feature \<times> bool \<times> bool"

record detect_process =
  flags :: capability_cache
  threads :: "detect_pc list"
  flag_stores :: "flag_store list"

definition thread_step ::
  "(aws_cpu_feature \<Rightarrow> bool) \<Rightarrow> nat \<Rightarrow> detect_process \<Rightarrow> detect_process" where
  "thread_step aws_cpu_has_feature t p =
     (if t < length (threads p) then
        case detect_stmt aws_cpu_has_feature (threads p ! t) (flags p) of
          (pc, g, st) \<Rightarrow>
            \<lparr>flags = g, threads = (threads p)[t := pc],
             flag_stores = flag_stores p @
               (case st of None \<Rightarrow> []
                | Some (f, v) \<Rightarrow> [(t, f, v, detection_performed (flags p))])\<rparr>
      else p)"

text \<open>A schedule names, statement by statement, the thread that runs next.\<close>

fun run_schedule ::
  "(aws_cpu_feature \<Rightarrow> bool) \<Rightarrow> nat list \<Rightarrow> detect_process \<Rightarrow> detect_process" where
  "run_schedule aws_cpu_has_feature [] p = p"
| "run_schedule aws_cpu_has_feature (t # ts) p =
     run_schedule aws_cpu_has_feature ts (thread_step aws_cpu_has_feature t p)"

text \<open>
  \<open>entering n g\<close> is a process whose flags are \<open>g\<close> and in which \<open>n\<close> threads have just
  called the entry point. \<open>one_after_another ts\<close> is the schedule in which the calls of the
  threads \<open>ts\<close> do not overlap: every thread runs the whole block, five statements at most,
  before the next one starts. \<open>written_once\<close> says of the log that no capability flag was
  stored twice and that no store happened with \<open>detection_performed\<close> already true.
\<close>

definition entering :: "nat \<Rightarrow> capability_cache \<Rightarrow> detect_process" where
  "entering n g = \<lparr>flags = g, threads = replicate n At_test, flag_stores = []\<rparr>"

definition one_after_another :: "nat list \<Rightarrow> nat list" where
  "one_after_another ts = concat (map (replicate 5) ts)"

definition written_once :: "detect_process \<Rightarrow> bool" where
  "written_once p =
     (distinct (map (\<lambda>(t, f, v, performed). f) (flag_stores p)) \<and>
      list_all (\<lambda>(t, f, v, performed). \<not> performed) (flag_stores p))"

definition quiescent :: "detect_process \<Rightarrow> bool" where
  "quiescent p = list_all (\<lambda>pc. pc = At_test \<or> pc = At_body) (threads p)"

definition stored_once :: "detect_process \<Rightarrow> bool" where
  "stored_once p =
     (quiescent p \<and> written_once p \<and> (flag_stores p = [] \<or> detection_performed (flags p)))"

text \<open>A probe that reports every feature.\<close>

definition every_feature :: "aws_cpu_feature \<Rightarrow> bool" where
  "every_feature f = True"
section \<open>Linearity of the CRC register\<close>

lemma crc_shift1_xor: "crc_shift1 (a XOR b) = crc_shift1 a XOR crc_shift1 b"
  by (simp add: crc_shift1_def bit_xor_iff drop_bit_xor ac_simps) 

lemma crc_shift1_zero: "crc_shift1 0 = 0"
  by (simp add: crc_shift1_def)

lemma ucast_and1_xor: "(ucast ((d XOR e) AND 1 :: u64) :: u32) = ucast (d AND 1) XOR ucast (e AND 1)"
  by (rule bit_eqI) (auto simp: bit_simps)

lemma crc_bits_xor: "crc_bits n (a XOR b) (d XOR e) = crc_bits n a d XOR crc_bits n b e"
proof (induction n arbitrary: a b d e)
  case 0
  show ?case by simp
next
  case (Suc n)
  have 1: "(a XOR b) XOR ucast ((d XOR e) AND 1) = (a XOR ucast (d AND 1)) XOR (b XOR ucast (e AND 1))"
    unfolding ucast_and1_xor by (simp add: xor.assoc xor.left_commute)
  have "crc_bits (Suc n) (a XOR b) (d XOR e) =
        crc_bits n (crc_shift1 (a XOR ucast (d AND 1)) XOR crc_shift1 (b XOR ucast (e AND 1)))
          (drop_bit 1 d XOR drop_bit 1 e)"
    by (simp only: crc_bits.simps 1) (simp only: crc_shift1_xor drop_bit_xor)
  also have "\<dots> = crc_bits (Suc n) a d XOR crc_bits (Suc n) b e"
    by (simp only: Suc.IH crc_bits.simps)
  finally show ?case .
qed

lemma crc_bits_zero: "crc_bits n 0 0 = 0"
  by (induction n) (simp_all add: crc_shift1_zero)

lemma crc_bits_split: "crc_bits n c d = crc_bits n c 0 XOR crc_bits n 0 d"
  using crc_bits_xor [of n c 0 0 d] by simp

lemma crc_bits_add: "crc_bits (m + n) c d = crc_bits n (crc_bits m c d) (drop_bit m d)"
  by (induction m arbitrary: c d) (simp_all add: drop_bit_drop_bit)

lemma crc_bits_take_bit: "n \<le> k \<Longrightarrow> crc_bits n c (take_bit k d) = crc_bits n c d"
proof (induction n arbitrary: c d k)
  case 0
  show ?case by simp
next
  case (Suc n)
  then obtain k' where k: "k = Suc k'" and nk: "n \<le> k'" by (cases k) auto
  have 1: "take_bit k d AND 1 = d AND 1"
    by (rule bit_eqI) (auto simp: bit_simps k)
  have 2: "drop_bit 1 (take_bit k d) = take_bit k' (drop_bit 1 d)"
    by (simp add: k drop_bit_take_bit)
  show ?case
    unfolding crc_bits.simps 1 2 by (rule Suc.IH [OF nk])
qed

lemma crc_bits_zero_data: "crc_bits n c 0 = (crc_shift1 ^^ n) c"
  by (induction n arbitrary: c) (simp_all add: funpow_swap1)


lemma take_bit_8_load: "take_bit 8 (ucast (b :: u8) OR push_bit 8 (w :: u64)) = ucast b"
  by (rule bit_eqI) (auto simp: bit_simps dest: bit_imp_le_length)

lemma drop_bit_8_load: "drop_bit 8 (ucast (b :: u8) OR push_bit 8 (w :: u64)) = take_bit 56 w"
  by (rule bit_eqI) (auto simp: bit_simps dest: bit_imp_le_length)

lemma crc_bits_load_le:
  "n \<le> 8 \<Longrightarrow> crc_bits (8 * n) c (load_le mem a n) = foldl CRC32B c (map mem [a..<a + n])"
proof (induction n arbitrary: a c)
  case 0
  show ?case by simp
next
  case (Suc n)
  let ?w = "ucast (mem a) OR push_bit 8 (load_le mem (Suc a) n) :: u64"
  have n: "n \<le> 8" "8 * n \<le> 56" using Suc.prems by simp_all
  have "crc_bits 8 c ?w = crc_bits 8 c (take_bit 8 ?w)"
    by (rule crc_bits_take_bit [symmetric]) simp
  then have 1: "crc_bits 8 c ?w = CRC32B c (mem a)"
    by (simp only: take_bit_8_load CRC32B_def)
  have "crc_bits (8 * Suc n) c (load_le mem a (Suc n)) = crc_bits (8 + 8 * n) c ?w"
    by simp
  also have "\<dots> = crc_bits (8 * n) (CRC32B c (mem a)) (take_bit 56 (load_le mem (Suc a) n))"
    by (simp only: crc_bits_add 1 drop_bit_8_load)
  also have "\<dots> = crc_bits (8 * n) (CRC32B c (mem a)) (load_le mem (Suc a) n)"
    by (rule crc_bits_take_bit [OF n(2)])
  also have "\<dots> = foldl CRC32B (CRC32B c (mem a)) (map mem [Suc a..<Suc a + n])"
    by (rule Suc.IH [OF n(1)])
  also have "\<dots> = foldl CRC32B c (map mem [a..<a + Suc n])"
    by (simp add: upt_conv_Cons del: upt_Suc)
  finally show ?case .
qed

lemma ucast_u32_u64_u32: "(ucast (ucast (c :: u32) :: u64) :: u32) = c"
  by (rule bit_eqI) (auto simp: bit_simps)

lemma length_buffer: "length (buffer mem a n) = n"
  by (simp add: buffer_def)

lemma buffer_0: "buffer mem a 0 = []"
  by (simp add: buffer_def)

lemma buffer_Suc: "buffer mem a (Suc n) = mem a # buffer mem (Suc a) n"
  by (simp add: buffer_def upt_conv_Cons del: upt_Suc)

lemma buffer_add: "buffer mem a (m + n) = buffer mem a m @ buffer mem (a + m) n"
proof -
  have "[a..<a + m + n] = [a..<a + m] @ [a + m..<a + m + n]"
    by (rule upt_add_eq_append) simp
  then show ?thesis
    by (simp add: buffer_def add.assoc)
qed

lemma CRC32Q_bytes:
  "ucast (CRC32Q (ucast c) (load64 mem a)) = foldl CRC32B c (buffer mem a 8)"
  using crc_bits_load_le [of 8 c mem a]
  by (simp add: CRC32Q_def load64_def ucast_u32_u64_u32 buffer_def)

lemma foldl_CRC32B_xor:
  "foldl CRC32B (a XOR b) bs = crc_bits (8 * length bs) a 0 XOR foldl CRC32B b bs"
proof (induction bs arbitrary: a b)
  case Nil
  show ?case by simp
next
  case (Cons x xs)
  have 1: "CRC32B (a XOR b) x = crc_bits 8 a 0 XOR CRC32B b x"
    using crc_bits_xor [of 8 a b 0 "ucast x"] by (simp add: CRC32B_def)
  have 2: "crc_bits (8 * length (x # xs)) a 0 = crc_bits (8 * length xs) (crc_bits 8 a 0) 0"
    using crc_bits_add [of 8 "8 * length xs" a 0] by simp
  show ?case
    by (simp only: foldl_Cons 1 2 Cons.IH)
qed

lemma foldl_CRC32B_shift:
  "foldl CRC32B a bs = crc_bits (8 * length bs) a 0 XOR foldl CRC32B 0 bs"
  using foldl_CRC32B_xor [of a 0 bs] by simp

lemma three_stripes:
  "foldl CRC32B c (A @ B @ C) =
     crc_bits (8 * (length B + length C)) (foldl CRC32B c A) 0 XOR
     crc_bits (8 * length C) (foldl CRC32B 0 B) 0 XOR foldl CRC32B 0 C"
proof -
  let ?a = "foldl CRC32B c A"
  have "foldl CRC32B c (A @ B @ C) = foldl CRC32B (foldl CRC32B ?a B) C"
    by simp
  also have "\<dots> = crc_bits (8 * length C) (foldl CRC32B ?a B) 0 XOR foldl CRC32B 0 C"
    by (rule foldl_CRC32B_shift)
  also have "foldl CRC32B ?a B = crc_bits (8 * length B) ?a 0 XOR foldl CRC32B 0 B"
    by (rule foldl_CRC32B_shift)
  also have "crc_bits (8 * length C) (crc_bits (8 * length B) ?a 0 XOR foldl CRC32B 0 B) 0 =
      crc_bits (8 * (length B + length C)) ?a 0 XOR crc_bits (8 * length C) (foldl CRC32B 0 B) 0"
    using crc_bits_xor [of "8 * length C" "crc_bits (8 * length B) ?a 0" "foldl CRC32B 0 B" 0 0]
      crc_bits_add [of "8 * length B" "8 * length C" ?a 0]
    by (simp add: distrib_left)
  finally show ?thesis by (simp add: xor.assoc)
qed

section \<open>Shifts of the register as multiplications\<close>

declare xpow.simps [simp del]

lemma take_bit_Suc_xor:
  fixes c :: u32
  shows "take_bit (Suc n) c = (if bit c 0 then 1 else 0) XOR push_bit 1 (take_bit n (drop_bit 1 c))"
proof (rule bit_eqI)
  fix i
  show "bit (take_bit (Suc n) c) i =
        bit ((if bit c 0 then 1 else 0) XOR push_bit 1 (take_bit n (drop_bit 1 c))) i"
    by (cases i) (auto simp: bit_simps simp del: push_bit_of_Suc_0 push_bit_Suc dest: bit_imp_le_length)
qed

lemma drop_bit_top:
  assumes "m + n < 32"
  shows "drop_bit n (push_bit (m + n) 1 :: u32) = push_bit m 1"
  using assms by (intro bit_eqI) (auto simp: bit_simps)

lemma top_bit_step:
  fixes a c :: u32
  assumes "m + n = 31"
  shows "drop_bit n (drop_bit 1 a XOR (if bit c 0 then 0x80000000 else 0)) XOR
           push_bit (Suc m) (take_bit n (drop_bit 1 c)) =
         drop_bit (Suc n) a XOR push_bit m (take_bit (Suc n) c)"
proof -
  have e: "(0x80000000 :: u32) = push_bit (m + n) 1"
    by (simp add: assms)
  have 1: "drop_bit n (if bit c 0 then 0x80000000 else 0 :: u32) = (if bit c 0 then push_bit m 1 else 0)"
    unfolding e using drop_bit_top [of m n] assms by simp
  have 2: "push_bit m (take_bit (Suc n) c) =
           (if bit c 0 then push_bit m 1 else 0) XOR push_bit (Suc m) (take_bit n (drop_bit 1 c))"
    unfolding take_bit_Suc_xor [of n c] push_bit_xor push_bit_push_bit
    by simp
  show ?thesis
    unfolding drop_bit_xor 1 2 drop_bit_drop_bit by (simp add: xor.assoc)
qed


lemma pmul_bits_invariant:
  assumes add: "\<And>a b. T (a XOR b) = T a XOR T b"
    and sh: "\<And>c. \<not> bit c 0 \<Longrightarrow> T (drop_bit 1 c) = crc_shift1 (T c)"
  shows "m + n = 32 \<Longrightarrow> take_bit n a = 0 \<Longrightarrow>
         pmul_bits n (T a) c (T 0x80000000) = T (drop_bit n a XOR push_bit m (take_bit n c))"
proof (induction n arbitrary: a c m)
  case 0
  then show ?case by simp
next
  case (Suc n)
  have T0: "T 0 = 0" using add [of 0 0] by simp
  have clear: "\<not> bit a j" if "j < Suc n" for j
  proof -
    have "\<not> bit (take_bit (Suc n) a) j" unfolding Suc.prems(2) by simp
    with that show ?thesis by (simp only: bit_take_bit_iff simp_thms)
  qed
  have even: "\<not> bit a 0"
    by (rule clear) simp
  let ?a' = "drop_bit 1 a XOR (if bit c 0 then 0x80000000 else 0)"
  have mn: "Suc m + n = 32" "m + n = 31" using Suc.prems(1) by simp_all
  have 1: "crc_shift1 (T a) XOR (if bit c 0 then T 0x80000000 else 0) = T ?a'"
    using sh [OF even] by (simp add: add T0)
  have low: "take_bit n ?a' = 0"
  proof (rule bit_eqI)
    fix i
    have e: "(0x80000000 :: u32) = push_bit (m + n) 1"
      by (simp add: mn(2))
    show "bit (take_bit n ?a') i = bit (0 :: u32) i"
      unfolding e using clear [of "Suc i"] by (auto simp: bit_simps simp del: push_bit_of_1)
  qed
  have "pmul_bits (Suc n) (T a) c (T 0x80000000) = pmul_bits n (T ?a') (drop_bit 1 c) (T 0x80000000)"
    by (simp only: pmul_bits.simps 1)
  also have "\<dots> = T (drop_bit n ?a' XOR push_bit (Suc m) (take_bit n (drop_bit 1 c)))"
    by (rule Suc.IH [OF mn(1) low])
  also have "\<dots> = T (drop_bit (Suc n) a XOR push_bit m (take_bit (Suc n) c))"
    by (simp only: top_bit_step [OF mn(2)])
  finally show ?case .
qed


lemma pmul_represents:
  assumes add: "\<And>a b. T (a XOR b) = T a XOR T b"
    and sh: "\<And>c. \<not> bit c 0 \<Longrightarrow> T (drop_bit 1 c) = crc_shift1 (T c)"
  shows "T c = pmul c (T 0x80000000)"
proof -
  have T0: "T 0 = 0" using add [of 0 0] by simp
  have "pmul_bits 32 (T 0) c (T 0x80000000) = T (drop_bit 32 0 XOR push_bit 0 (take_bit 32 c))"
    by (rule pmul_bits_invariant [OF add sh]) simp_all
  moreover have "take_bit 32 c = c"
    by (simp add: take_bit_word_eq_self)
  ultimately show ?thesis
    by (simp add: pmul_def T0)
qed

lemma funpow_shift_additive: "(crc_shift1 ^^ n) (a XOR b) = (crc_shift1 ^^ n) a XOR (crc_shift1 ^^ n) b"
  by (induction n) (simp_all add: crc_shift1_xor)

lemma funpow_shift_compatible:
  "\<not> bit c 0 \<Longrightarrow> (crc_shift1 ^^ n) (drop_bit 1 c) = crc_shift1 ((crc_shift1 ^^ n) c)"
proof -
  assume "\<not> bit c 0"
  then have "drop_bit 1 c = crc_shift1 c" by (simp add: crc_shift1_def)
  then show ?thesis by (simp add: funpow_swap1)
qed

lemma funpow_shift_pmul: "(crc_shift1 ^^ n) c = pmul c ((crc_shift1 ^^ n) 0x80000000)"
  by (rule pmul_represents [OF funpow_shift_additive funpow_shift_compatible])

lemma xpow_funpow: "xpow n = (crc_shift1 ^^ n) 0x80000000"
proof (induction n rule: xpow.induct)
  case (1 n)
  show ?case
  proof (cases "n = 0")
    case True
    then show ?thesis by (simp add: xpow.simps)
  next
    case False
    let ?h = "n div 2"
    have h: "xpow ?h = (crc_shift1 ^^ ?h) 0x80000000"
      using 1 False by simp
    have sq: "pmul (xpow ?h) (xpow ?h) = (crc_shift1 ^^ (?h + ?h)) 0x80000000"
      unfolding h funpow_add o_apply by (rule funpow_shift_pmul [symmetric])
    show ?thesis
    proof (cases "even n")
      case True
      then have "?h + ?h = n" by auto
      with sq True False show ?thesis
        by (subst xpow.simps) (simp add: xpow_step_def)
    next
      case False
      then have "Suc (?h + ?h) = n" by presburger
      then have "(crc_shift1 ^^ n) 0x80000000 = crc_shift1 ((crc_shift1 ^^ (?h + ?h)) 0x80000000)"
        by (metis funpow.simps(2) o_apply)
      with sq False \<open>n \<noteq> 0\<close> show ?thesis
        by (subst xpow.simps) (simp add: xpow_step_def)
    qed
  qed
qed

section \<open>Evaluation on numerals\<close>

lemma crc_bits_numeral:
  "crc_bits (numeral k) c d =
     crc_bits (pred_numeral k) (crc_shift1 (c XOR ucast (d AND 1))) (drop_bit 1 d)"
  by (simp add: numeral_eq_Suc)

lemma clmul_bits_zero: "clmul_bits n a 0 = 0"
  by (induction n arbitrary: a) simp_all

lemma clmul_bits_numeral:
  "b \<noteq> 0 \<Longrightarrow> clmul_bits (numeral k) a b =
     (if bit b 0 then a else 0) XOR clmul_bits (pred_numeral k) (push_bit 1 a) (drop_bit 1 b)"
  by (simp add: numeral_eq_Suc)

lemma pmul_bits_numeral:
  "pmul_bits (numeral k) acc c v =
     pmul_bits (pred_numeral k) (crc_shift1 acc XOR (if bit c 0 then v else 0)) (drop_bit 1 c) v"
  by (simp add: numeral_eq_Suc)

lemma xpow_0: "xpow 0 = 0x80000000"
  by (simp add: xpow.simps)

lemma xpow_1: "xpow (Suc 0) = xpow_step 1 0x80000000"
  by (subst xpow.simps) (simp add: xpow_0)

lemma xpow_numeral: "xpow (numeral k) = xpow_step (numeral k) (xpow (numeral k div 2))"
  by (subst xpow.simps) simp

lemma load_le_numeral:
  "load_le mem a (numeral k) = ucast (mem a) OR push_bit 8 (load_le mem (Suc a) (pred_numeral k))"
  by (simp add: numeral_eq_Suc)

lemmas crc_eval = crc_bits_numeral crc_shift1_def CRC32B_def

lemmas poly_eval = crc_bits_numeral clmul_bits_zero clmul_bits_numeral pmul_bits_numeral
  xpow_0 xpow_1 xpow_numeral crc_shift1_def pmul_def xpow_step_def clmul_def lo64_def hi64_def
  fold_mul_def

lemma Let_value: "Let = let_value"
  by (simp add: fun_eq_iff let_value_def)

lemma let_value_cong: "a = b \<Longrightarrow> let_value a f = let_value b f"
  by simp

lemmas avx512_eval = CRC32Q_def mm_clmulepi64_si128_def
  mm512_loadu_si512_def load128_def load64_def load_le_numeral
  mm512_clmulepi64_epi128_def mm_ternarylogic_epi64_0x96_def mm512_ternarylogic_epi64_0x96_def
  mm512_xor_si512_def mm512_cast_cvtsi32_def mm512_extracti32x4_epi32_def mm_srli_si128_def
  mm_extract_epi32_def k1k2_def [unfolded Let_value] k3k4_def [unfolded Let_value]
  k5k6_def k7k8_def poly_def
  fold_256_loop.simps [unfolded Let_value] fold_64_loop.simps [unfolded Let_value]
  crc32c_avx512_folds_def [unfolded Let_value] avx512_reduce_def [unfolded Let_value]
  crc32c_avx512_def let_value_def

section \<open>The scalar loops\<close>

declare crc32b_loop.simps [simp del] crc32q_loop.simps [simp del] clmul_loop.simps [simp del]
  fold_256_loop.simps [simp del] fold_64_loop.simps [simp del]

lemma crc32b_loop_eq:
  "crc32b_loop mem input n crc = (input + nat n, foldl CRC32B crc (buffer mem input (nat n)))"
proof (induction mem input n crc rule: crc32b_loop.induct)
  case (1 mem input n crc)
  show ?case
  proof (cases "n > 0")
    case True
    then have n: "nat n = Suc (nat (n - 1))" by simp
    from 1 True show ?thesis
      by (subst crc32b_loop.simps) (simp add: n buffer_Suc)
  next
    case False
    then show ?thesis
      by (subst crc32b_loop.simps) (simp add: buffer_0)
  qed
qed

lemma and_not_63: "(len :: int) AND NOT 63 = len - len mod 64"
proof -
  have m: "(63 :: int) = mask 6" by (simp add: mask_eq_exp_minus_1)
  have "len AND NOT (mask 6) = push_bit 6 (drop_bit 6 len)"
    by (rule bit_eqI) (auto simp: bit_simps)
  also have "\<dots> = len - len mod 64"
    by (simp add: push_bit_eq_mult drop_bit_eq_div minus_mod_eq_mult_div)
  finally show ?thesis unfolding m .
qed

lemma and_7: "(k :: int) AND 7 = k mod 8"
proof -
  have m: "(7 :: int) = mask 3" by (simp add: mask_eq_exp_minus_1)
  show ?thesis unfolding m by (simp add: take_bit_eq_mod flip: take_bit_eq_mask)
qed

lemma nat_div8_split:
  assumes "0 \<le> len"
  shows "nat len = 8 * nat (len div 8) + nat (len mod 8)"
proof -
  have "len = 8 * (len div 8) + len mod 8" by simp
  moreover have "0 \<le> len div 8" "0 \<le> len mod 8" using assms by simp_all
  ultimately show ?thesis by linarith
qed

lemma crc32q_loop_eq:
  "0 \<le> len \<Longrightarrow>
   crc32q_loop mem input len crc =
     (input + 8 * nat (len div 8), len mod 8,
      foldl CRC32B crc (buffer mem input (8 * nat (len div 8))))"
proof (induction mem input len crc rule: crc32q_loop.induct)
  case (1 mem input len crc)
  show ?case
  proof (cases "len \<ge> 8")
    case True
    then have d: "nat (len div 8) = Suc (nat ((len - 8) div 8))"
      by (simp add: div_diff) 
    have m: "(len - 8) mod 8 = len mod 8"
      by (simp add: mod_diff_eq)
    have u: "buffer mem input (8 + 8 * nat ((len - 8) div 8)) =
             buffer mem input 8 @ buffer mem (input + 8) (8 * nat ((len - 8) div 8))"
      by (rule buffer_add)
    from True have "0 \<le> len - 8" by simp
    with 1 True show ?thesis
      by (subst crc32q_loop.simps) (simp add: d m u CRC32Q_bytes add.assoc)
  next
    case False
    with 1 show ?thesis
      by (subst crc32q_loop.simps) (simp add: buffer_0)
  qed
qed

lemma drain_eq:
  assumes "0 \<le> len"
  shows "(case crc32q_loop mem input len crc of (input, len, crc) \<Rightarrow> crc32b_loop mem input len crc) =
         (input + nat len, foldl CRC32B crc (buffer mem input (nat len)))"
proof -
  let ?q = "8 * nat (len div 8)"
  have n: "nat len = ?q + nat (len mod 8)"
    using assms by (rule nat_div8_split)
  have "buffer mem input (nat len) = buffer mem input ?q @ buffer mem (input + ?q) (nat (len mod 8))"
    unfolding n by (rule buffer_add)
  then show ?thesis
    using assms n by (simp add: crc32q_loop_eq crc32b_loop_eq)
qed

lemma clmul_loop_below: "len < int N \<Longrightarrow> clmul_loop folder N mem input len crc = (input, len, crc)"
  by (subst clmul_loop.simps) simp

lemma sw_shift_eq: "sw_shift = crc_shift1"
proof
  fix c :: u32
  have "(c AND 1 = 1) = bit c 0"
    by (simp add: and_one_eq bit_0 mod_2_eq_odd one_and_eq)
  then show "sw_shift c = crc_shift1 c"
    by (simp add: sw_shift_def crc_shift1_def)
qed

section \<open>The dispatcher, path by path\<close>

lemma leading_bytes_range: "0 \<le> leading_bytes input" "leading_bytes input < 8"
  by (simp_all add: leading_bytes_def and_7)

lemma leading_bytes_mod: "leading_bytes input = (8 - int (input mod 8)) mod 8"
  by (simp add: leading_bytes_def and_7 zmod_int)

lemma hw_ge8:
  assumes "8 \<le> len"
  shows "aws_checksums_crc32c_hw cpu g mem input len prev =
           (case clmul_block (detect cpu g) mem (input + nat (leading_bytes input))
                   (len - leading_bytes input)
                   (foldl CRC32B (NOT prev) (buffer mem input (nat (leading_bytes input)))) of
              Inl crc \<Rightarrow> (crc, detect cpu g)
            | Inr (input, len, crc) \<Rightarrow>
                (NOT (snd (case crc32q_loop mem input len crc of
                             (input, len, crc) \<Rightarrow> crc32b_loop mem input len crc)),
                 detect cpu g))"
  using assms
  by (simp add: aws_checksums_crc32c_hw_def Let_def crc32b_loop_eq leading_bytes_def
      split: sum.split prod.split)

lemma clmul_block_inactive:
  assumes "\<not> detected_clmul g \<or> (\<not> detected_avx512 g \<and> \<not> detected_sse42 g) \<or> len < 256"
  shows "clmul_block g mem input len crc = Inr (input, len, crc)"
  using assms by (auto simp: clmul_block_def clmul_loop_below)

lemma buffer_split_leading:
  assumes "8 \<le> len"
  shows "buffer mem input (nat len) =
         buffer mem input (nat (leading_bytes input)) @
         buffer mem (input + nat (leading_bytes input)) (nat (len - leading_bytes input))"
proof -
  have "nat len = nat (leading_bytes input) + nat (len - leading_bytes input)"
    using assms leading_bytes_range [of input] by linarith
  then show ?thesis
    by (simp add: buffer_add)
qed

lemma hw_scalar_path:
  assumes "8 \<le> len"
    and "\<not> detected_clmul (detect cpu g) \<or>
         (\<not> detected_avx512 (detect cpu g) \<and> \<not> detected_sse42 (detect cpu g)) \<or>
         len - leading_bytes input < 256"
  shows "fst (aws_checksums_crc32c_hw cpu g mem input len prev) =
         NOT (foldl CRC32B (NOT prev) (buffer mem input (nat len)))"
proof -
  have "0 \<le> len - leading_bytes input"
    using assms(1) leading_bytes_range [of input] by linarith
  then show ?thesis
    by (simp add: hw_ge8 [OF assms(1)] clmul_block_inactive [OF assms(2)] drain_eq
        buffer_split_leading [OF assms(1)])
qed

section \<open>The stripes of the folders\<close>

lemma ucast_zero_regs: "(0 :: u64) = ucast (0 :: u32)"
  by simp

lemma crc32q_row_bytes:
  "crc32q_row mem inp (ucast (c0 :: u32), ucast (c1 :: u32), ucast (c2 :: u32)) (d0, d1, d2) =
     (ucast (foldl CRC32B c0 (buffer mem (inp + d0) 8)),
      ucast (foldl CRC32B c1 (buffer mem (inp + d1) 8)),
      ucast (foldl CRC32B c2 (buffer mem (inp + d2) 8)))"
  by (simp add: crc32q_row_def CRC32Q_bytes [symmetric] CRC32Q_def ucast_u32_u64_u32)

text \<open>Eight consecutive rows from displacements \<open>(d0, d1, d2)\<close>.\<close>

lemma buffer_8_8: "foldl CRC32B (foldl CRC32B c (buffer mem a n)) (buffer mem (a + n) 8) =
   foldl CRC32B c (buffer mem a (n + 8))"
  by (simp add: buffer_add)

lemma rows_256_bytes:
  "foldl (crc32q_row mem inp) (ucast (c0 :: u32), ucast (c1 :: u32), ucast (c2 :: u32)) rows_256 =
     (ucast (foldl CRC32B c0 (buffer mem inp 80)),
      ucast (foldl CRC32B c1 (buffer mem (inp + 88) 80)),
      ucast (foldl CRC32B c2 (buffer mem (inp + 176) 80)))"
proof -
  have b: "buffer mem a 80 = buffer mem a 8 @ buffer mem (a + 8) 8 @ buffer mem (a + 16) 8 @
      buffer mem (a + 24) 8 @ buffer mem (a + 32) 8 @ buffer mem (a + 40) 8 @
      buffer mem (a + 48) 8 @ buffer mem (a + 56) 8 @ buffer mem (a + 64) 8 @
      buffer mem (a + 72) 8" for a
    using buffer_add [of mem a 8 72] buffer_add [of mem "a + 8" 8 64]
      buffer_add [of mem "a + 16" 8 56] buffer_add [of mem "a + 24" 8 48]
      buffer_add [of mem "a + 32" 8 40] buffer_add [of mem "a + 40" 8 32]
      buffer_add [of mem "a + 48" 8 24] buffer_add [of mem "a + 56" 8 16]
      buffer_add [of mem "a + 64" 8 8]
    by (simp add: add.assoc)
  show ?thesis
    unfolding rows_256_def foldl_Cons foldl_Nil crc32q_row_bytes b
    by (simp add: add.assoc)
qed


lemma buffer_64:
  "buffer mem a 64 = buffer mem a 8 @ buffer mem (a + 8) 8 @ buffer mem (a + 16) 8 @
      buffer mem (a + 24) 8 @ buffer mem (a + 32) 8 @ buffer mem (a + 40) 8 @
      buffer mem (a + 48) 8 @ buffer mem (a + 56) 8"
  using buffer_add [of mem a 8 56] buffer_add [of mem "a + 8" 8 48]
    buffer_add [of mem "a + 16" 8 40] buffer_add [of mem "a + 24" 8 32]
    buffer_add [of mem "a + 32" 8 24] buffer_add [of mem "a + 40" 8 16]
    buffer_add [of mem "a + 48" 8 8]
  by (simp add: add.assoc)

lemma rows_1024_bytes:
  "foldl (crc32q_row mem inp) (ucast (c0 :: u32), ucast (c1 :: u32), ucast (c2 :: u32)) rows_1024 =
     (ucast (foldl CRC32B c0 (buffer mem inp 64)),
      ucast (foldl CRC32B c1 (buffer mem (inp + 344) 64)),
      ucast (foldl CRC32B c2 (buffer mem (inp + 680) 64)))"
  unfolding rows_1024_def foldl_Cons foldl_Nil crc32q_row_bytes buffer_64
  by (simp add: add.assoc)

lemma rows_3072_bytes:
  "foldl (crc32q_row mem inp) (ucast (c0 :: u32), ucast (c1 :: u32), ucast (c2 :: u32)) rows_3072 =
     (ucast (foldl CRC32B c0 (buffer mem inp 64)),
      ucast (foldl CRC32B c1 (buffer mem (inp + 1024) 64)),
      ucast (foldl CRC32B c2 (buffer mem (inp + 2048) 64)))"
  unfolding rows_3072_def foldl_Cons foldl_Nil crc32q_row_bytes buffer_64
  by (simp add: add.assoc)

lemma loop_1024_bytes:
  "loop_1024 mem (Suc n) inp (ucast (c0 :: u32), ucast (c1 :: u32), ucast (c2 :: u32)) =
     (inp + 64 * Suc n,
      ucast (foldl CRC32B c0 (buffer mem inp (64 * Suc n))),
      ucast (foldl CRC32B c1 (buffer mem (inp + 344) (64 * Suc n))),
      ucast (foldl CRC32B c2 (buffer mem (inp + 680) (64 * Suc n))))"
proof (induction n arbitrary: inp c0 c1 c2)
  case 0
  show ?case by (simp add: rows_1024_bytes)
next
  case (Suc n)
  have b: "buffer mem a (64 * Suc (Suc n)) = buffer mem a 64 @ buffer mem (a + 64) (64 * Suc n)" for a
    using buffer_add [of mem a 64 "64 * Suc n"] by simp
  have a: "inp + 64 + d = inp + d + 64" for d by simp
  show ?case
    by (simp only: loop_1024.simps(2) [of mem "Suc n"] Let_def rows_1024_bytes Suc.IH b
        foldl_append a) simp
qed

lemma loop_3072_bytes:
  "loop_3072 mem (Suc n) inp (ucast (c0 :: u32), ucast (c1 :: u32), ucast (c2 :: u32)) =
     (inp + 64 * Suc n,
      ucast (foldl CRC32B c0 (buffer mem inp (64 * Suc n))),
      ucast (foldl CRC32B c1 (buffer mem (inp + 1024) (64 * Suc n))),
      ucast (foldl CRC32B c2 (buffer mem (inp + 2048) (64 * Suc n))))"
proof (induction n arbitrary: inp c0 c1 c2)
  case 0
  show ?case by (simp add: rows_3072_bytes)
next
  case (Suc n)
  have b: "buffer mem a (64 * Suc (Suc n)) = buffer mem a 64 @ buffer mem (a + 64) (64 * Suc n)" for a
    using buffer_add [of mem a 64 "64 * Suc n"] by simp
  have a: "inp + 64 + d = inp + d + 64" for d by simp
  show ?case
    by (simp only: loop_3072.simps(2) [of mem "Suc n"] Let_def rows_3072_bytes Suc.IH b
        foldl_append a) simp
qed

lemma lo64_ucast: "lo64 (ucast (x :: u64)) = x"
  unfolding lo64_def by (rule bit_eqI) (auto simp: bit_simps)

lemma FOLD_K1K2_fold_mul:
  "FOLD_K1K2 K1 K2 (ucast (c0 :: u32), ucast (c1 :: u32), ucast (c2 :: u32)) =
     fold_mul K1 c0 XOR c2 XOR fold_mul K2 c1"
  by (simp add: FOLD_K1K2_def Let_def mm_clmulepi64_si128_def lo64_ucast CRC32Q_def
      ucast_u32_u64_u32 fold_mul_def xor.assoc)

section \<open>The folding multiplication\<close>

lemma clmul_bits_xor: "clmul_bits n (a XOR b) k = clmul_bits n a k XOR clmul_bits n b k"
proof (induction n arbitrary: a b k)
  case 0
  show ?case by simp
next
  case (Suc n)
  have "(if bit k 0 then a XOR b else 0) = (if bit k 0 then a else 0) XOR (if bit k 0 then b else 0)"
    by simp
  then show ?case
    by (simp only: clmul_bits.simps push_bit_xor Suc.IH) (simp add: xor.assoc xor.left_commute)
qed

lemma clmul_bits_push: "clmul_bits n (push_bit 1 a) k = push_bit 1 (clmul_bits n a k)"
proof (induction n arbitrary: a k)
  case 0
  show ?case by simp
next
  case (Suc n)
  have "(if bit k 0 then push_bit 1 a else 0) = push_bit 1 (if bit k 0 then a else 0)"
    by simp
  then show ?case
    by (simp only: clmul_bits.simps Suc.IH push_bit_xor)
qed

lemma clmul_bits_bit:
  "bit (clmul_bits n a b) j \<Longrightarrow> \<exists>i k. j = i + k \<and> bit a i \<and> bit b k"
proof (induction n arbitrary: a b j)
  case 0
  then show ?case by simp
next
  case (Suc n)
  from Suc.prems have "(bit b 0 \<and> bit a j) \<or> bit (clmul_bits n (push_bit 1 a) (drop_bit 1 b)) j"
    by (auto simp: bit_xor_iff split: if_splits)
  then show ?case
  proof
    assume "bit b 0 \<and> bit a j"
    then have "j = j + 0 \<and> bit a j \<and> bit b 0" by simp
    then show ?thesis by blast
  next
    assume "bit (clmul_bits n (push_bit 1 a) (drop_bit 1 b)) j"
    from Suc.IH [OF this] obtain i k where
      ik: "j = i + k" "bit (push_bit 1 a) i" "bit (drop_bit 1 b) k" by blast
    from ik(2) obtain i' where i': "i = Suc i'" "bit a i'"
      by (cases i) (auto simp: bit_simps simp del: push_bit_of_Suc_0 push_bit_Suc)
    from ik(3) have "bit b (Suc k)" by (simp add: bit_simps)
    with ik(1) i' have "j = i' + Suc k \<and> bit a i' \<and> bit b (Suc k)" by simp
    then show ?thesis by blast
  qed
qed

lemma fold_mul_xor: "fold_mul K (a XOR b) = fold_mul K a XOR fold_mul K b"
proof -
  have 1: "(ucast (ucast (a XOR b) :: u64) :: u128) = ucast (ucast a :: u64) XOR ucast (ucast b :: u64)"
    by (rule bit_eqI) (auto simp: bit_simps)
  have 2: "lo64 (x XOR y) = lo64 x XOR lo64 y" for x y
    unfolding lo64_def by (rule bit_eqI) (auto simp: bit_simps)
  show ?thesis
    unfolding fold_mul_def clmul_def 1 clmul_bits_xor 2
    using crc_bits_xor [of 64 0 0] by simp
qed


lemma fold_mul_shift:
  assumes even: "\<not> bit c 0"
  shows "fold_mul K (drop_bit 1 c) = crc_shift1 (fold_mul K c)"
proof -
  let ?c' = "drop_bit 1 c"
  let ?P = "clmul (ucast ?c') (ucast K)"
  let ?d = "lo64 ?P"
  have 1: "(ucast (ucast c :: u64) :: u128) = push_bit 1 (ucast (ucast ?c' :: u64))"
  proof (rule bit_eqI)
    fix i
    show "bit (ucast (ucast c :: u64) :: u128) i = bit (push_bit 1 (ucast (ucast ?c' :: u64)) :: u128) i"
      using even
      by (cases i) (auto simp: bit_simps simp del: push_bit_of_Suc_0 push_bit_Suc dest: bit_imp_le_length)
  qed
  have 2: "clmul (ucast c) (ucast K) = push_bit 1 ?P"
    unfolding clmul_def 1 by (rule clmul_bits_push)
  have 3: "lo64 (push_bit 1 x) = push_bit 1 (lo64 x)" for x
  proof (rule bit_eqI)
    fix i
    show "bit (lo64 (push_bit 1 x)) i = bit (push_bit 1 (lo64 x)) i"
      unfolding lo64_def
      by (cases i) (auto simp: bit_simps simp del: push_bit_of_Suc_0 push_bit_Suc)
  qed
  have top: "\<not> bit ?d 63"
  proof
    assume "bit ?d 63"
    then have "bit ?P 63"
      by (simp add: lo64_def bit_simps)
    then obtain i k where ik: "63 = i + k" "bit (ucast (ucast ?c' :: u64) :: u128) i"
        "bit (ucast K :: u64) k"
      unfolding clmul_def by (blast dest: clmul_bits_bit)
    from ik(2) have "i < 31"
      by (auto simp: bit_simps dest: bit_imp_le_length)
    moreover from ik(3) have "k < 32"
      by (auto simp: bit_simps dest: bit_imp_le_length)
    ultimately show False using ik(1) by simp
  qed
  have 4: "crc_bits 64 0 (push_bit 1 ?d) = crc_bits 63 0 ?d"
  proof -
    have a: "push_bit 1 ?d AND 1 = 0"
    proof (rule bit_eqI)
      fix i
      show "bit (push_bit 1 ?d AND 1) i = bit (0 :: u64) i"
        by (cases i) (auto simp: bit_simps simp del: push_bit_of_Suc_0 push_bit_Suc)
    qed
    have b: "drop_bit 1 (push_bit 1 ?d) = take_bit 63 ?d"
    proof (rule bit_eqI)
      fix i
      show "bit (drop_bit 1 (push_bit 1 ?d)) i = bit (take_bit 63 ?d) i"
        by (auto simp: bit_simps simp del: push_bit_of_Suc_0 push_bit_Suc)
    qed
    have "crc_bits (Suc 63) 0 (push_bit 1 ?d) = crc_bits 63 0 (take_bit 63 ?d)"
      unfolding crc_bits.simps a b by (simp add: crc_shift1_zero)
    then show ?thesis
      by (simp add: crc_bits_take_bit)
  qed
  have 5: "crc_bits 64 0 ?d = crc_shift1 (crc_bits 63 0 ?d)"
  proof -
    have z: "drop_bit 63 ?d AND 1 = 0"
    proof (rule bit_eqI)
      fix i
      show "bit (drop_bit 63 ?d AND 1) i = bit (0 :: u64) i"
        using top by (cases i) (auto simp: bit_simps)
    qed
    have "crc_bits (63 + 1) 0 ?d = crc_bits 1 (crc_bits 63 0 ?d) (drop_bit 63 ?d)"
      by (rule crc_bits_add)
    then show ?thesis
      using z by simp
  qed
  show ?thesis
    unfolding fold_mul_def 2 3 4 5 ..
qed

lemma fold_mul_pmul: "fold_mul K c = pmul c (fold_mul K 0x80000000)"
  by (rule pmul_represents [of "fold_mul K", OF fold_mul_xor fold_mul_shift])

lemma crc_bits_zero_pmul: "crc_bits n c 0 = pmul c (xpow n)"
  by (simp only: crc_bits_zero_data xpow_funpow) (rule funpow_shift_pmul)

lemma fold_mul_shift_by:
  "fold_mul K 0x80000000 = xpow n \<Longrightarrow> fold_mul K c = crc_bits n c 0"
  using fold_mul_pmul [of K c] by (simp add: crc_bits_zero_pmul)

section \<open>The stripe folders are sequential CRCs\<close>

text \<open>The six constants, each checked against the power of \<open>x\<close> it must equal.\<close>

lemma fold_256_K1: "fold_mul 0x1b3d8f29 0x80000000 = xpow 1344"
  by (simp add: poly_eval)
lemma fold_256_K2: "fold_mul 0x39d3b296 0x80000000 = xpow 640"
  by (simp add: poly_eval)
lemma fold_1024_K1: "fold_mul 0xe417f38a 0x80000000 = xpow 5440"
  by (simp add: poly_eval)
lemma fold_1024_K2: "fold_mul 0x8f158014 0x80000000 = xpow 2752"
  by (simp add: poly_eval)
lemma fold_3072_K1: "fold_mul 0xa51b6135 0x80000000 = xpow 16384"
  by (simp add: poly_eval)
lemma fold_3072_K2: "fold_mul 0x170076fa 0x80000000 = xpow 8192"
  by (simp add: poly_eval)


lemma CRC32Q_ucast:
  "CRC32Q (ucast (c :: u32)) (load64 mem a) = ucast (foldl CRC32B c (buffer mem a 8))"
  by (simp add: CRC32Q_bytes [symmetric] CRC32Q_def ucast_u32_u64_u32)

lemma stripes_256:
  "s_crc32c_sse42_clmul_256 mem input crc =
     FOLD_K1K2 0x1b3d8f29 0x39d3b296
       (ucast (foldl CRC32B crc (buffer mem input 88)),
        ucast (foldl CRC32B 0 (buffer mem (input + 88) 88)),
        ucast (foldl CRC32B 0 (buffer mem (input + 176) 80)))"
proof -
  have b: "buffer mem a 88 = buffer mem a 80 @ buffer mem (a + 80) 8" for a
    using buffer_add [of mem a 80 8] by simp
  have r: "foldl (crc32q_row mem input) (ucast crc, 0, 0) rows_256 =
     (ucast (foldl CRC32B crc (buffer mem input 80)),
      ucast (foldl CRC32B 0 (buffer mem (input + 88) 80)),
      ucast (foldl CRC32B 0 (buffer mem (input + 176) 80)))"
    using rows_256_bytes [of mem input crc 0 0] by simp
  show ?thesis
    unfolding s_crc32c_sse42_clmul_256_def r
    by (simp add: CRC32Q_ucast b add.assoc)
qed

lemma stripes_1024:
  "s_crc32c_sse42_clmul_1024 mem input crc =
     FOLD_K1K2 0xe417f38a 0x8f158014
       (ucast (foldl CRC32B crc (buffer mem input 344)),
        ucast (foldl CRC32B 0 (buffer mem (input + 344) 336)),
        ucast (foldl CRC32B 0 (buffer mem (input + 680) 344)))"
proof -
  have b1: "buffer mem a 344 = buffer mem a 320 @ buffer mem (a + 320) 8 @
      buffer mem (a + 328) 8 @ buffer mem (a + 336) 8" for a
    using buffer_add [of mem a 320 24] buffer_add [of mem "a + 320" 8 16]
      buffer_add [of mem "a + 328" 8 8]
    by (simp add: add.assoc)
  have b2: "buffer mem a 336 = buffer mem a 320 @ buffer mem (a + 320) 8 @
      buffer mem (a + 328) 8" for a
    using buffer_add [of mem a 320 16] buffer_add [of mem "a + 320" 8 8]
    by (simp add: add.assoc)
  have l: "loop_1024 mem 5 input (ucast crc, 0, 0) =
     (input + 320,
      ucast (foldl CRC32B crc (buffer mem input 320)),
      ucast (foldl CRC32B 0 (buffer mem (input + 344) 320)),
      ucast (foldl CRC32B 0 (buffer mem (input + 680) 320)))"
    using loop_1024_bytes [of mem 4 input crc 0 0] by simp
  show ?thesis
    unfolding s_crc32c_sse42_clmul_1024_def l
    by (simp add: crc32q_row_bytes CRC32Q_ucast b1 b2 add.assoc)
qed

lemma stripes_3072:
  "s_crc32c_sse42_clmul_3072 mem input crc =
     FOLD_K1K2 0xa51b6135 0x170076fa
       (ucast (foldl CRC32B crc (buffer mem input 1024)),
        ucast (foldl CRC32B 0 (buffer mem (input + 1024) 1024)),
        ucast (foldl CRC32B 0 (buffer mem (input + 2048) 1024)))"
proof -
  have l: "loop_3072 mem 16 input (ucast crc, 0, 0) =
     (input + 1024,
      ucast (foldl CRC32B crc (buffer mem input 1024)),
      ucast (foldl CRC32B 0 (buffer mem (input + 1024) 1024)),
      ucast (foldl CRC32B 0 (buffer mem (input + 2048) 1024)))"
    using loop_3072_bytes [of mem 15 input crc 0 0] by simp
  show ?thesis
    unfolding s_crc32c_sse42_clmul_3072_def l by simp
qed

lemma fold_stripes:
  assumes K1: "fold_mul K1 0x80000000 = xpow (8 * (length B + length C))"
    and K2: "fold_mul K2 0x80000000 = xpow (8 * length C)"
  shows "FOLD_K1K2 K1 K2
           (ucast (foldl CRC32B crc A), ucast (foldl CRC32B 0 B), ucast (foldl CRC32B 0 C)) =
         foldl CRC32B crc (A @ B @ C)"
  unfolding FOLD_K1K2_fold_mul fold_mul_shift_by [OF K1] fold_mul_shift_by [OF K2] three_stripes
  by (simp add: xor.assoc xor.left_commute xor.commute)

lemma kernel_256_sequential:
  "s_crc32c_sse42_clmul_256 mem input crc = foldl CRC32B crc (buffer mem input 256)"
proof -
  have "buffer mem input 256 =
        buffer mem input 88 @ buffer mem (input + 88) 88 @ buffer mem (input + 176) 80"
    using buffer_add [of mem input 88 168] buffer_add [of mem "input + 88" 88 80]
    by (simp add: add.assoc)
  then show ?thesis
    unfolding stripes_256
    by (simp add: fold_stripes length_buffer fold_256_K1 fold_256_K2)
qed

lemma kernel_1024_sequential:
  "s_crc32c_sse42_clmul_1024 mem input crc = foldl CRC32B crc (buffer mem input 1024)"
proof -
  have "buffer mem input 1024 =
        buffer mem input 344 @ buffer mem (input + 344) 336 @ buffer mem (input + 680) 344"
    using buffer_add [of mem input 344 680] buffer_add [of mem "input + 344" 336 344]
    by (simp add: add.assoc)
  then show ?thesis
    unfolding stripes_1024
    by (simp add: fold_stripes length_buffer fold_1024_K1 fold_1024_K2)
qed

lemma kernel_3072_sequential:
  "s_crc32c_sse42_clmul_3072 mem input crc = foldl CRC32B crc (buffer mem input 3072)"
proof -
  have "buffer mem input 3072 =
        buffer mem input 1024 @ buffer mem (input + 1024) 1024 @ buffer mem (input + 2048) 1024"
    using buffer_add [of mem input 1024 2048] buffer_add [of mem "input + 1024" 1024 1024]
    by (simp add: add.assoc)
  then show ?thesis
    unfolding stripes_3072
    by (simp add: fold_stripes length_buffer fold_3072_K1 fold_3072_K2)
qed

section \<open>The dispatcher when the wide-vector branch is not taken\<close>

lemma clmul_loop_consumes:
  "(\<forall>i c. folder mem i c = foldl CRC32B c (buffer mem i N)) \<Longrightarrow> 0 \<le> len \<Longrightarrow>
   \<exists>k. int k \<le> len \<and>
       clmul_loop folder N mem input len crc =
         (input + k, len - int k, foldl CRC32B crc (buffer mem input k))"
proof (induction folder N mem input len crc rule: clmul_loop.induct)
  case (1 folder N mem input len crc)
  note folder = "1.prems"(1)
  show ?case
  proof (cases "len \<ge> int N \<and> N > 0")
    case True
    then have "0 \<le> len - int N" by simp
    from "1.IH" [OF True folder this] obtain k where
      k: "int k \<le> len - int N"
         "clmul_loop folder N mem (input + N) (len - int N) (folder mem input crc) =
            (input + N + k, len - int N - int k,
             foldl CRC32B (folder mem input crc) (buffer mem (input + N) k))"
      by blast
    have "clmul_loop folder N mem input len crc =
            (input + (N + k), len - int (N + k), foldl CRC32B crc (buffer mem input (N + k)))"
      using True k(2) folder by (subst clmul_loop.simps) (simp add: buffer_add add.assoc)
    moreover have "int (N + k) \<le> len" using k(1) by simp
    ultimately show ?thesis by blast
  next
    case False
    then have "clmul_loop folder N mem input len crc =
                 (input + 0, len - int 0, foldl CRC32B crc (buffer mem input 0))"
      by (subst clmul_loop.simps) (auto simp: buffer_0)
    with "1.prems"(2) show ?thesis by (intro exI [of _ 0]) simp
  qed
qed

lemma clmul_block_consumes:
  assumes "0 \<le> len"
    and "\<not> (detected_clmul g \<and> detected_avx512 g \<and> 256 \<le> len)"
  shows "\<exists>k. int k \<le> len \<and>
             clmul_block g mem input len crc =
               Inr (input + k, len - int k, foldl CRC32B crc (buffer mem input k))"
proof (cases "detected_clmul g \<and> \<not> detected_avx512 g \<and> detected_sse42 g")
  case True
  from clmul_loop_consumes [of s_crc32c_sse42_clmul_3072 mem 3072 len input crc] assms(1)
  obtain k1 where k1: "int k1 \<le> len"
    "clmul_loop s_crc32c_sse42_clmul_3072 3072 mem input len crc =
       (input + k1, len - int k1, foldl CRC32B crc (buffer mem input k1))"
    by (auto simp: kernel_3072_sequential)
  from clmul_loop_consumes [of s_crc32c_sse42_clmul_1024 mem 1024 "len - int k1" "input + k1"] k1(1)
  obtain k2 where k2: "int k2 \<le> len - int k1"
    "clmul_loop s_crc32c_sse42_clmul_1024 1024 mem (input + k1) (len - int k1)
        (foldl CRC32B crc (buffer mem input k1)) =
       (input + k1 + k2, len - int k1 - int k2,
        foldl CRC32B (foldl CRC32B crc (buffer mem input k1)) (buffer mem (input + k1) k2))"
    by (auto simp: kernel_1024_sequential)
  from clmul_loop_consumes [of s_crc32c_sse42_clmul_256 mem 256 "len - int k1 - int k2" "input + k1 + k2"] k2(1)
  obtain k3 where k3: "int k3 \<le> len - int k1 - int k2"
    "clmul_loop s_crc32c_sse42_clmul_256 256 mem (input + k1 + k2) (len - int k1 - int k2)
        (foldl CRC32B (foldl CRC32B crc (buffer mem input k1)) (buffer mem (input + k1) k2)) =
       (input + k1 + k2 + k3, len - int k1 - int k2 - int k3,
        foldl CRC32B (foldl CRC32B (foldl CRC32B crc (buffer mem input k1)) (buffer mem (input + k1) k2))
          (buffer mem (input + k1 + k2) k3))"
    by (auto simp: kernel_256_sequential)
  have e: "foldl CRC32B (foldl CRC32B (foldl CRC32B crc (buffer mem input k1))
               (buffer mem (input + k1) k2)) (buffer mem (input + k1 + k2) k3) =
           foldl CRC32B crc (buffer mem input (k1 + k2 + k3))"
    using buffer_add [of mem input "k1 + k2" k3] buffer_add [of mem input k1 k2]
    by (simp add: add.assoc)
  have "clmul_block g mem input len crc =
          Inr (input + k1 + k2 + k3, len - int k1 - int k2 - int k3,
               foldl CRC32B crc (buffer mem input (k1 + k2 + k3)))"
    using True by (simp add: clmul_block_def k1(2) k2(2) k3(2) e)
  then have "clmul_block g mem input len crc =
          Inr (input + (k1 + k2 + k3), len - int (k1 + k2 + k3),
               foldl CRC32B crc (buffer mem input (k1 + k2 + k3)))"
    by (simp add: add.assoc)
  moreover have "int (k1 + k2 + k3) \<le> len" using k3(1) by simp
  ultimately show ?thesis by blast
next
  case False
  with assms(2) have "clmul_block g mem input len crc =
      Inr (input + 0, len - int 0, foldl CRC32B crc (buffer mem input 0))"
    by (auto simp: clmul_block_def buffer_0)
  with assms(1) show ?thesis by (intro exI [of _ 0]) simp
qed

lemma hw_without_wide_vector:
  assumes "8 \<le> len"
    and "\<not> (detected_clmul (detect cpu g) \<and> detected_avx512 (detect cpu g) \<and>
            256 \<le> len - leading_bytes input)"
  shows "fst (aws_checksums_crc32c_hw cpu g mem input len prev) =
         NOT (foldl CRC32B (NOT prev) (buffer mem input (nat len)))"
proof -
  let ?ld = "leading_bytes input"
  let ?c1 = "foldl CRC32B (NOT prev) (buffer mem input (nat ?ld))"
  have l1: "0 \<le> len - ?ld"
    using assms(1) leading_bytes_range [of input] by linarith
  from clmul_block_consumes [OF l1 assms(2), of mem "input + nat ?ld" ?c1]
  obtain k where k: "int k \<le> len - ?ld"
    "clmul_block (detect cpu g) mem (input + nat ?ld) (len - ?ld) ?c1 =
       Inr (input + nat ?ld + k, len - ?ld - int k,
            foldl CRC32B ?c1 (buffer mem (input + nat ?ld) k))"
    by blast
  have rest: "0 \<le> len - ?ld - int k" using k(1) by simp
  have n: "nat (len - ?ld) = k + nat (len - ?ld - int k)"
    using k(1) by linarith
  have "buffer mem (input + nat ?ld) (nat (len - ?ld)) =
        buffer mem (input + nat ?ld) k @ buffer mem (input + nat ?ld + k) (nat (len - ?ld - int k))"
    unfolding n by (rule buffer_add)
  then show ?thesis
    by (simp add: hw_ge8 [OF assms(1)] k(2) drain_eq [OF rest] buffer_split_leading [OF assms(1)])
qed

section \<open>The software oracle and the hardware paths without the wide-vector branch\<close>

lemma low_bits_Suc:
  fixes d :: u64
  assumes "n < 32"
  shows "(ucast (d AND 1) :: u32) XOR push_bit 1 (ucast (take_bit n (drop_bit 1 d))) =
         ucast (take_bit (Suc n) d)"
proof (rule bit_eqI)
  fix i
  show "bit ((ucast (d AND 1) :: u32) XOR push_bit 1 (ucast (take_bit n (drop_bit 1 d)))) i =
        bit (ucast (take_bit (Suc n) d) :: u32) i"
    using assms
    by (cases i) (auto simp: bit_simps simp del: push_bit_of_Suc_0 push_bit_Suc)
qed

lemma shift_of_double:
  fixes d :: u64
  assumes "n < 32"
  shows "crc_shift1 (push_bit 1 (ucast (take_bit n d) :: u32)) = ucast (take_bit n d)"
proof -
  let ?y = "ucast (take_bit n d) :: u32"
  have e: "\<not> bit (push_bit 1 ?y) 0"
    by (simp only: bit_push_bit_iff) simp
  have "drop_bit 1 (push_bit 1 ?y) = ?y"
  proof (rule bit_eqI)
    fix i
    show "bit (drop_bit 1 (push_bit 1 ?y)) i = bit ?y i"
      using assms by (auto simp: bit_simps simp del: push_bit_of_Suc_0 push_bit_Suc)
  qed
  with e show ?thesis
    by (simp only: crc_shift1_def if_False)
qed

lemma crc_bits_as_shifts:
  "n \<le> 32 \<Longrightarrow> crc_bits n c d = (crc_shift1 ^^ n) (c XOR ucast (take_bit n d))"
proof (induction n arbitrary: c d)
  case 0
  show ?case by simp
next
  case (Suc n)
  then have n: "n < 32" "n \<le> 32" by simp_all
  let ?y = "ucast (take_bit n (drop_bit 1 d)) :: u32"
  have "crc_bits (Suc n) c d = (crc_shift1 ^^ n) (crc_shift1 (c XOR ucast (d AND 1)) XOR ?y)"
    by (simp only: crc_bits.simps Suc.IH [OF n(2)])
  also have "crc_shift1 (c XOR ucast (d AND 1)) XOR ?y =
             crc_shift1 ((c XOR ucast (d AND 1)) XOR push_bit 1 ?y)"
    by (simp only: crc_shift1_xor [of _ "push_bit 1 ?y"] shift_of_double [OF n(1)])
  also have "(c XOR ucast (d AND 1)) XOR push_bit 1 ?y = c XOR ucast (take_bit (Suc n) d)"
    by (simp only: xor.assoc low_bits_Suc [OF n(1)])
  finally show ?case
    by (simp add: funpow_swap1)
qed

lemma sw_byte_eq: "sw_byte = CRC32B"
proof (intro ext)
  fix c :: u32 and b :: u8
  have "take_bit 8 (ucast b :: u64) = ucast b"
  proof (rule bit_eqI)
    fix i
    show "bit (take_bit 8 (ucast b :: u64)) i = bit (ucast b :: u64) i"
      using bit_imp_le_length [of b i] by (auto simp: bit_simps)
  qed
  moreover have "(ucast (ucast b :: u64) :: u32) = ucast b"
    by (rule bit_eqI) (auto simp: bit_simps dest: bit_imp_le_length)
  ultimately show "sw_byte c b = CRC32B c b"
    using crc_bits_as_shifts [of 8 c "ucast b"]
    by (simp add: sw_byte_def CRC32B_def sw_shift_eq)
qed

lemma sw_as_CRC32B:
  "aws_checksums_crc32c_sw mem input len prev =
     NOT (foldl CRC32B (NOT prev) (buffer mem input (nat len)))"
  by (simp add: aws_checksums_crc32c_sw_def sw_byte_eq)

lemma hw_eq_sw_without_wide_vector:
  assumes "\<not> (detected_clmul (detect cpu g) \<and> detected_avx512 (detect cpu g) \<and>
            256 \<le> len - leading_bytes input)"
  shows "fst (aws_checksums_crc32c_hw cpu g mem input len prev) =
         aws_checksums_crc32c_sw mem input len prev"
proof (cases "8 \<le> len")
  case True
  then show ?thesis
    by (simp add: hw_without_wide_vector [OF True assms] sw_as_CRC32B)
next
  case False
  then show ?thesis
    by (simp add: aws_checksums_crc32c_hw_def Let_def crc32b_loop_eq sw_as_CRC32B)
qed

section \<open>The byte accounting of the wide-vector folder\<close>






lemma chunk_size_eq: "(len :: int) AND NOT 63 = 64 * (len div 64)"
  unfolding and_not_63 by (simp add: minus_mod_eq_mult_div)

lemma clmul_block_wide_vector:
  assumes "detected_clmul g" "detected_avx512 g" "256 \<le> len"
  shows "clmul_block g mem input len crc =
           (if len - (len AND NOT 63) = 0 then Inl (NOT (crc32c_avx512 mem input len crc))
            else Inr (input + nat (len AND NOT 63), len - (len AND NOT 63),
                      NOT (crc32c_avx512 mem input len crc)))"
  using assms unfolding clmul_block_def Let_def by (simp only: if_True)


section \<open>The wide-vector branch with a residue\<close>

text \<open>
  On the wide-vector branch the dispatcher complements what the folder returns. When
  nothing remains it returns that value; when a residue remains it carries the
  complemented value into the quadword and byte loops and complements once more at the
  end.
\<close>

lemma hw_wide_vector:
  assumes "8 \<le> len"
    and "detected_clmul (detect cpu g)" and "detected_avx512 (detect cpu g)"
    and "256 \<le> len - leading_bytes input"
  shows "fst (aws_checksums_crc32c_hw cpu g mem input len prev) =
           (let input1 = input + nat (leading_bytes input);
                len1 = len - leading_bytes input;
                crc1 = foldl CRC32B (NOT prev) (buffer mem input (nat (leading_bytes input)));
                crc2 = NOT (crc32c_avx512 mem input1 len1 crc1)
            in if len1 mod 64 = 0 then crc2
               else NOT (foldl CRC32B crc2
                          (buffer mem (input1 + nat (len1 - len1 mod 64)) (nat (len1 mod 64)))))"
proof -
  let ?len1 = "len - leading_bytes input"
  have r: "0 \<le> ?len1 mod 64" by simp
  have e: "?len1 - (?len1 - ?len1 mod 64) = ?len1 mod 64"
    by simp
  show ?thesis
    unfolding Let_def
    by (simp add: clmul_block_wide_vector [OF assms(2,3,4), unfolded and_not_63 e]
        hw_ge8 [OF assms(1)] drain_eq [OF r])
qed

lemma buffer_ramp_at: "buffer (ramp_at b) b n = map of_nat [0..<n]"
  by (induction n) (simp_all add: buffer_def ramp_at_def)

lemma leading_bytes_0: "leading_bytes 0 = 0"
  by (simp add: leading_bytes_mod)

lemma leading_bytes_1: "leading_bytes (Suc 0) = 7"
  by (simp add: leading_bytes_mod)

lemma every_feature_detected:
  "detect every_feature initial_cache =
     \<lparr>detection_performed = True, detected_clmul = True, detected_sse42 = True,
      detected_avx512 = True\<rparr>"
  by (simp add: detect_def initial_cache_def every_feature_def)

lemma not_0_u32: "NOT (0 :: u32) = 0xFFFFFFFF"
  by simp

text \<open>
  The folder and the byte instruction on 257 bytes holding 0, 1, 2, ... (modulo 256),
  evaluated on numerals.
\<close>

lemma avx512_ramp_257: "crc32c_avx512 (ramp_at 0) 0 257 0xFFFFFFFF = 0x63BBE7B4"
  by (simp add: poly_eval avx512_eval ramp_at_def cong: let_value_cong prod.case_cong_weak)

lemma CRC32B_ramp_257: "foldl CRC32B 0xFFFFFFFF (map of_nat [0..<257]) = 0x75EC5E31"
  by (simp add: crc_eval upt_rec)

lemma CRC32B_residue_ramp_257:
  "NOT (foldl CRC32B (NOT 0x63BBE7B4) (buffer (ramp_at 0) 256 1)) = (0x27910D60 :: u32)"
  by (simp add: buffer_def ramp_at_def crc_eval)

lemma not_CRC32B_ramp_257:
  "NOT (foldl CRC32B (NOT 0) (buffer (ramp_at b) b 257)) = 0x8A13A1CE"
proof -
  have "NOT (0x75EC5E31 :: u32) = 0x8A13A1CE"
    by simp
  then show ?thesis
    unfolding buffer_ramp_at not_0_u32 CRC32B_ramp_257 .
qed

text \<open>
  One call over the 257 bytes at an 8-byte boundary with every feature detected: the
  folder takes 256 bytes and the last byte is the residue.
\<close>

lemma hw_ramp_257:
  "fst (aws_checksums_crc32c_hw every_feature initial_cache (ramp_at 0) 0 257 0) = 0x27910D60"
proof -
  have "fst (aws_checksums_crc32c_hw every_feature initial_cache (ramp_at 0) 0 257 0) =
        NOT (foldl CRC32B (NOT (crc32c_avx512 (ramp_at 0) 0 257 (NOT 0)))
               (buffer (ramp_at 0) 256 1))"
    by (subst hw_wide_vector)
      (simp_all add: every_feature_detected leading_bytes_0 buffer_0 Let_def)
  also have "\<dots> = 0x27910D60"
    unfolding not_0_u32 avx512_ramp_257 by (rule CRC32B_residue_ramp_257)
  finally show ?thesis .
qed

text \<open>The software oracle on the same bytes.\<close>

lemma sw_ramp_257: "aws_checksums_crc32c_sw (ramp_at b) b 257 0 = 0x8A13A1CE"
  unfolding sw_as_CRC32B using not_CRC32B_ramp_257 [of b] by simp

text \<open>
  The same bytes one address past an 8-byte boundary: seven leading bytes leave 250, the
  wide-vector branch is not taken, and the result is the oracle's.
\<close>

lemma hw_ramp_257_unaligned:
  "fst (aws_checksums_crc32c_hw every_feature initial_cache (ramp_at 1) 1 257 0) = 0x8A13A1CE"
proof -
  have "fst (aws_checksums_crc32c_hw every_feature initial_cache (ramp_at 1) 1 257 0) =
        NOT (foldl CRC32B (NOT 0) (buffer (ramp_at 1) 1 (nat 257)))"
    by (rule hw_without_wide_vector) (simp_all add: leading_bytes_1)
  also have "\<dots> = 0x8A13A1CE"
    using not_CRC32B_ramp_257 [of 1] by simp
  finally show ?thesis .
qed

text \<open>
  The same bytes at the 8-byte boundary in two calls, the first over one byte and the
  second over the other 256 from its result: neither takes the wide-vector branch.
\<close>

lemma hw_ramp_257_chained:
  "fst (aws_checksums_crc32c_hw every_feature
          (snd (aws_checksums_crc32c_hw every_feature initial_cache (ramp_at 0) 0 1 0))
          (ramp_at 0) 1 256
          (fst (aws_checksums_crc32c_hw every_feature initial_cache (ramp_at 0) 0 1 0))) =
   0x8A13A1CE"
proof -
  have a: "fst (aws_checksums_crc32c_hw every_feature initial_cache (ramp_at 0) 0 1 0) =
           NOT (foldl CRC32B (NOT 0) (buffer (ramp_at 0) 0 (nat 1)))"
    unfolding sw_as_CRC32B [symmetric]
    by (rule hw_eq_sw_without_wide_vector) (simp add: leading_bytes_0)
  have b: "fst (aws_checksums_crc32c_hw every_feature g (ramp_at 0) 1 256 prev) =
           NOT (foldl CRC32B (NOT prev) (buffer (ramp_at 0) 1 (nat 256)))" for g prev
    by (rule hw_without_wide_vector) (simp_all add: leading_bytes_1)
  have c: "buffer (ramp_at 0) 0 257 = buffer (ramp_at 0) 0 1 @ buffer (ramp_at 0) 1 256"
    using buffer_add [of "ramp_at 0" 0 1 256] by simp
  have "NOT (foldl CRC32B (NOT 0) (buffer (ramp_at 0) 0 257)) = 0x8A13A1CE"
    by (rule not_CRC32B_ramp_257)
  then show ?thesis
    unfolding b a c by simp
qed
section \<open>The capability cache\<close>

lemma hw_cache:
  "snd (aws_checksums_crc32c_hw cpu g mem input len prev) = detect cpu g"
  by (simp add: aws_checksums_crc32c_hw_def Let_def split: prod.split sum.split)

lemma detect_performed: "detection_performed (detect cpu g)"
  by (simp add: detect_def)

lemma detect_idem: "detection_performed g \<Longrightarrow> detect cpu g = g"
  by (simp add: detect_def)

lemma run_calls_performed: "detection_performed g \<Longrightarrow> run_calls g cs = g"
proof (induction cs arbitrary: g)
  case Nil
  show ?case by simp
next
  case (Cons c cs)
  obtain cpu mem input len prev where c: "c = (cpu, mem, input, len, prev)"
    by (cases c) auto
  show ?case
    using Cons.prems by (simp add: c hw_cache detect_idem Cons.IH)
qed

subsection \<open>The block statement by statement\<close>

text \<open>
  In the statement-level model, a call that runs the block alone does to the flags what
  \<open>detect\<close> does, and calls that run one after another store every capability flag at
  most once, never with \<open>detection_performed\<close> already true.
\<close>

lemma replicate_5: "replicate 5 t = [t, t, t, t, t]"
  by (simp add: numeral_eq_Suc)

lemma step_out_of_range: "\<not> t < length (threads p) \<Longrightarrow> thread_step cpu t p = p"
  by (simp add: thread_step_def)

lemma step_at_body:
  "t < length (threads p) \<Longrightarrow> threads p ! t = At_body \<Longrightarrow> thread_step cpu t p = p"
  by (cases p) (simp add: thread_step_def list_update_same_conv)

lemma call_performed:
  assumes "t < length (threads p)" and "threads p ! t = At_test" and "detection_performed (flags p)"
  shows "run_schedule cpu (replicate 5 t) p = p\<lparr>threads := (threads p)[t := At_body]\<rparr>"
proof -
  let ?q = "p\<lparr>threads := (threads p)[t := At_body]\<rparr>"
  have 1: "thread_step cpu t p = ?q"
    using assms by (cases p) (simp add: thread_step_def)
  have 2: "thread_step cpu t ?q = ?q"
    using assms(1) by (intro step_at_body) simp_all
  show ?thesis
    by (simp add: replicate_5 1 2)
qed

lemma call_detecting:
  assumes "t < length (threads p)" and "threads p ! t = At_test" and "\<not> detection_performed (flags p)"
  shows "run_schedule cpu (replicate 5 t) p =
    \<lparr>flags = detect cpu (flags p), threads = (threads p)[t := At_body],
     flag_stores = flag_stores p @
       [(t, AWS_CPU_FEATURE_CLMUL, cpu AWS_CPU_FEATURE_CLMUL, False),
        (t, AWS_CPU_FEATURE_SSE_4_2, cpu AWS_CPU_FEATURE_SSE_4_2, False),
        (t, AWS_CPU_FEATURE_AVX512, cpu AWS_CPU_FEATURE_AVX512, False)]\<rparr>"
  using assms
  by (cases p; cases "flags p") (simp add: replicate_5 thread_step_def detect_def)

lemma run_schedule_append:
  "run_schedule cpu (xs @ ys) p = run_schedule cpu ys (run_schedule cpu xs p)"
  by (induction xs arbitrary: p) simp_all

lemma call_idle:
  assumes "\<not> (t < length (threads p) \<and> threads p ! t = At_test)" and "quiescent p"
  shows "run_schedule cpu (replicate 5 t) p = p"
proof (cases "t < length (threads p)")
  case False
  then show ?thesis by (simp add: replicate_5 step_out_of_range)
next
  case True
  then have "threads p ! t = At_body"
    using assms by (auto simp add: quiescent_def list_all_length)
  then show ?thesis
    using True by (simp add: replicate_5 step_at_body)
qed

lemma quiescent_update:
  assumes "quiescent p" and "threads q = (threads p)[t := At_body]"
  shows "quiescent q"
proof -
  have "set (threads q) \<subseteq> insert At_body (set (threads p))"
    unfolding assms(2) by (rule set_update_subset_insert)
  then show ?thesis
    using assms(1) by (auto simp add: quiescent_def list_all_iff)
qed

lemma call_alone_stored_once:
  assumes "stored_once p"
  shows "stored_once (run_schedule cpu (replicate 5 t) p)"
proof (cases "t < length (threads p) \<and> threads p ! t = At_test")
  case False
  then show ?thesis
    using assms by (simp add: call_idle stored_once_def)
next
  case True
  show ?thesis
  proof (cases "detection_performed (flags p)")
    case True
    with \<open>t < length (threads p) \<and> threads p ! t = At_test\<close> assms show ?thesis
      by (simp add: call_performed stored_once_def quiescent_update [of p] written_once_def)
  next
    case False
    then have e: "flag_stores p = []"
      using assms by (simp add: stored_once_def)
    have q: "quiescent \<lparr>flags = g, threads = (threads p)[t := At_body], flag_stores = fs\<rparr>" for g fs
    proof (rule quiescent_update [of p _ t])
      show "quiescent p"
        using assms by (simp add: stored_once_def)
    qed simp
    show ?thesis
      using True False
      by (simp add: call_detecting e stored_once_def q written_once_def detect_def)
  qed
qed

lemma one_after_another_stored_once:
  "stored_once p \<Longrightarrow> stored_once (run_schedule cpu (one_after_another ts) p)"
proof (induction ts arbitrary: p)
  case Nil
  then show ?case by (simp add: one_after_another_def)
next
  case (Cons t ts)
  have "stored_once (run_schedule cpu (replicate 5 t) p)"
    using Cons.prems by (rule call_alone_stored_once)
  then have "stored_once (run_schedule cpu (one_after_another ts) (run_schedule cpu (replicate 5 t) p))"
    by (rule Cons.IH)
  then show ?case
    by (simp add: one_after_another_def run_schedule_append)
qed

lemma calls_one_after_another_store_once:
  "written_once (run_schedule cpu (one_after_another ts) (entering n g))"
proof -
  have "stored_once (entering n g)"
    by (simp add: stored_once_def entering_def quiescent_def written_once_def list_all_length)
  then have "stored_once (run_schedule cpu (one_after_another ts) (entering n g))"
    by (rule one_after_another_stored_once)
  then show ?thesis
    by (simp add: stored_once_def)
qed

lemma call_alone_flags:
  assumes "t < length (threads p)" and "threads p ! t = At_test"
  shows "flags (run_schedule cpu (replicate 5 t) p) = detect cpu (flags p)"
proof (cases "detection_performed (flags p)")
  case True
  then show ?thesis
    using assms by (simp add: call_performed detect_def)
next
  case False
  then show ?thesis
    using assms by (simp add: call_detecting)
qed

subsection \<open>The claim\<close>

text \<open>
  Claim C10, for calls that do not overlap. The flags are written only by a call
  that finds \<open>detection_performed\<close> false, which sets them from the probe and sets
  \<open>detection_performed\<close>; a call that finds it true leaves all four flags as they are,
  whatever the probe would answer; so after any call, every later call of a sequence of
  calls, each returning before the next begins, leaves the flags unchanged.
\<close>

theorem capability_flags_written_once:
  "detection_performed (snd (aws_checksums_crc32c_hw cpu g mem input len prev)) \<and>
   (detection_performed g \<longrightarrow> snd (aws_checksums_crc32c_hw cpu g mem input len prev) = g) \<and>
   (\<not> detection_performed g \<longrightarrow>
      snd (aws_checksums_crc32c_hw cpu g mem input len prev) =
        \<lparr>detection_performed = True,
         detected_clmul = cpu AWS_CPU_FEATURE_CLMUL,
         detected_sse42 = cpu AWS_CPU_FEATURE_SSE_4_2,
         detected_avx512 = cpu AWS_CPU_FEATURE_AVX512\<rparr>) \<and>
   run_calls (snd (aws_checksums_crc32c_hw cpu g mem input len prev)) cs =
     snd (aws_checksums_crc32c_hw cpu g mem input len prev)"
  by (simp add: hw_cache detect_performed detect_idem run_calls_performed)
    (simp add: detect_def)

theorem capability_flags_written_once_witness:
  "(\<not> detection_performed initial_cache \<and>
    snd (aws_checksums_crc32c_hw (\<lambda>f. f \<noteq> AWS_CPU_FEATURE_AVX512) initial_cache
           (bytes_at 0 [1, 2, 3]) 0 3 0) =
      \<lparr>detection_performed = True, detected_clmul = True,
       detected_sse42 = True, detected_avx512 = False\<rparr>) \<and>
   (detection_performed
      \<lparr>detection_performed = True, detected_clmul = True,
       detected_sse42 = True, detected_avx512 = False\<rparr> \<and>
    snd (aws_checksums_crc32c_hw (\<lambda>f. False)
           \<lparr>detection_performed = True, detected_clmul = True,
            detected_sse42 = True, detected_avx512 = False\<rparr>
           (bytes_at 0 [1, 2, 3]) 0 3 0) =
      \<lparr>detection_performed = True, detected_clmul = True,
       detected_sse42 = True, detected_avx512 = False\<rparr>)"
  using capability_flags_written_once
          [of "\<lambda>f. f \<noteq> AWS_CPU_FEATURE_AVX512" initial_cache "bytes_at 0 [1, 2, 3]" 0 3 0 "[]"]
        capability_flags_written_once
          [of "\<lambda>f. False"
              "\<lparr>detection_performed = True, detected_clmul = True,
                detected_sse42 = True, detected_avx512 = False\<rparr>"
              "bytes_at 0 [1, 2, 3]" 0 3 0 "[]"]
  by (simp add: initial_cache_def)

text \<open>
  The claim as stated, at most one write per process and none once \<open>detection_performed\<close>
  is true, fails for calls that overlap: the block has no lock, atomic or barrier. Two
  threads enter with the flags unset; both test \<open>detection_performed\<close> and find it
  false; the first then runs its four stores; the second, which has already passed the
  test, stores the three capability flags again, with \<open>detection_performed\<close> true.
\<close>

theorem overlapping_first_calls_store_twice:
  "flag_stores (run_schedule every_feature [0, 1, 0, 0, 0, 0, 1, 1, 1, 1] (entering 2 initial_cache)) =
     [(0, AWS_CPU_FEATURE_CLMUL, True, False),
      (0, AWS_CPU_FEATURE_SSE_4_2, True, False),
      (0, AWS_CPU_FEATURE_AVX512, True, False),
      (1, AWS_CPU_FEATURE_CLMUL, True, True),
      (1, AWS_CPU_FEATURE_SSE_4_2, True, True),
      (1, AWS_CPU_FEATURE_AVX512, True, True)] \<and>
   \<not> written_once (run_schedule every_feature [0, 1, 0, 0, 0, 0, 1, 1, 1, 1] (entering 2 initial_cache))"
  by (simp add: entering_def thread_step_def every_feature_def initial_cache_def written_once_def)
section \<open>Small inputs\<close>

text \<open>
  Claim C5. A call with length 0 returns the seed unchanged, for every pointer, every
  memory and every state of the capability flags.
\<close>

theorem empty_input_returns_seed:
  "fst (aws_checksums_crc32c_hw cpu g mem input 0 seed) = seed"
  by (simp add: aws_checksums_crc32c_hw_def Let_def crc32b_loop_eq buffer_0)

text \<open>
  Claim C7. For a length from 0 to 7 the result is the complement of what the byte loop
  leaves in the accumulator, and the byte loop applies CRC32B to each of the bytes in
  turn; neither the address nor the capability flags take part in the result.
\<close>

theorem small_input_byte_loop_only:
  "0 \<le> len \<Longrightarrow> len < 8 \<Longrightarrow>
   aws_checksums_crc32c_hw cpu g mem input len prev =
     (NOT (snd (crc32b_loop mem input len (NOT prev))), detect cpu g) \<and>
   snd (crc32b_loop mem input len (NOT prev)) =
     foldl CRC32B (NOT prev) (buffer mem input (nat len))"
  by (simp add: aws_checksums_crc32c_hw_def Let_def crc32b_loop_eq)

theorem small_input_byte_loop_only_witness:
  "(0::int) \<le> 3 \<and> (3::int) < 8 \<and>
   aws_checksums_crc32c_hw (\<lambda>f. True) initial_cache (bytes_at 5 [0x61, 0x62, 0x63]) 5 3 0 =
     (0x364B3FB7,
      \<lparr>detection_performed = True, detected_clmul = True,
       detected_sse42 = True, detected_avx512 = True\<rparr>)"
  using small_input_byte_loop_only
          [of 3 "\<lambda>f. True" initial_cache "bytes_at 5 [0x61, 0x62, 0x63]" 5 0]
  by (simp add: detect_def initial_cache_def bytes_at_def crc_eval buffer_def upt_rec)

section \<open>Stripe folders\<close>

text \<open>
  Claim C3. Each stripe folder, given a running crc and a block of exactly 256, 1024 or 3072
  bytes, returns the crc that CRC32B applied to the bytes of the block in order, starting
  from the same running crc, produces; neither the incoming crc nor the result is
  complemented.
\<close>

theorem stripe_folders_sequential:
  "s_crc32c_sse42_clmul_256 mem input crc = foldl CRC32B crc (buffer mem input 256) \<and>
   s_crc32c_sse42_clmul_1024 mem input crc = foldl CRC32B crc (buffer mem input 1024) \<and>
   s_crc32c_sse42_clmul_3072 mem input crc = foldl CRC32B crc (buffer mem input 3072)"
  by (simp only: kernel_256_sequential kernel_1024_sequential kernel_3072_sequential simp_thms)

section \<open>The known vector\<close>

text \<open>
  Claim C6. When the buffer holds the nine ASCII bytes of \<open>123456789\<close> and the seed is 0, the
  entry point returns \<open>0xE3069283\<close>, at every address, for every answer of the probe and
  every state of the capability flags.
\<close>

theorem known_vector:
  "buffer mem input 9 = [0x31, 0x32, 0x33, 0x34, 0x35, 0x36, 0x37, 0x38, 0x39] \<Longrightarrow>
   fst (aws_checksums_crc32c_hw cpu g mem input 9 0) = 0xE3069283"
proof -
  assume b: "buffer mem input 9 = [0x31, 0x32, 0x33, 0x34, 0x35, 0x36, 0x37, 0x38, 0x39]"
  have "\<not> 256 \<le> 9 - leading_bytes input"
    using leading_bytes_range [of input] by simp
  then have "fst (aws_checksums_crc32c_hw cpu g mem input 9 0) =
             NOT (foldl CRC32B (NOT 0) (buffer mem input (nat 9)))"
    by (intro hw_without_wide_vector) simp_all
  also have "\<dots> = 0xE3069283"
    by (simp add: b crc_eval)
  finally show ?thesis .
qed

theorem known_vector_witness:
  "buffer (bytes_at 13 [0x31, 0x32, 0x33, 0x34, 0x35, 0x36, 0x37, 0x38, 0x39]) 13 9 =
     [0x31, 0x32, 0x33, 0x34, 0x35, 0x36, 0x37, 0x38, 0x39] \<and>
   fst (aws_checksums_crc32c_hw (\<lambda>f. True) initial_cache
          (bytes_at 13 [0x31, 0x32, 0x33, 0x34, 0x35, 0x36, 0x37, 0x38, 0x39]) 13 9 0) = 0xE3069283"
proof -
  have b: "buffer (bytes_at 13 [0x31, 0x32, 0x33, 0x34, 0x35, 0x36, 0x37, 0x38, 0x39]) 13 9 =
     [0x31, 0x32, 0x33, 0x34, 0x35, 0x36, 0x37, 0x38, 0x39]"
    by (simp add: buffer_def bytes_at_def upt_rec)
  from known_vector [OF b] b show ?thesis by simp
qed

section \<open>The wide-vector branch\<close>



section \<open>Agreement with the software oracle\<close>

text \<open>
  Claim C1. The entry point should return what the software oracle returns, for every
  buffer, length, seed and combination of detected capabilities, in particular when the
  wide-vector folder leaves a residue below 64 bytes. It does not: over the 257 bytes
  0, 1, 2, ..., 255, 0 at address 0 with seed 0 and every feature detected, the entry point
  returns \<open>0x27910D60\<close> and the oracle returns \<open>0x8A13A1CE\<close>.
\<close>

theorem wide_vector_residue_differs_from_oracle:
  "fst (aws_checksums_crc32c_hw every_feature initial_cache (ramp_at 0) 0 257 0) = 0x27910D60 \<and>
   aws_checksums_crc32c_sw (ramp_at 0) 0 257 0 = 0x8A13A1CE"
  by (simp only: hw_ramp_257 sw_ramp_257 simp_thms)

section \<open>Chaining\<close>

text \<open>
  Claim C2. Two chained calls, the second over the rest of the buffer from the result of
  the first, should return what one call over the whole buffer returns. They do not: over
  the 257 bytes 0, 1, 2, ..., 255, 0 at address 0 with seed 0 and every feature detected,
  split after the first byte, the chained calls return \<open>0x8A13A1CE\<close> and the one call
  returns \<open>0x27910D60\<close>.
\<close>

theorem chained_calls_differ_from_one_call:
  "fst (aws_checksums_crc32c_hw every_feature
          (snd (aws_checksums_crc32c_hw every_feature initial_cache (ramp_at 0) 0 1 0))
          (ramp_at 0) 1 256
          (fst (aws_checksums_crc32c_hw every_feature initial_cache (ramp_at 0) 0 1 0))) =
     0x8A13A1CE \<and>
   fst (aws_checksums_crc32c_hw every_feature initial_cache (ramp_at 0) 0 257 0) = 0x27910D60"
  by (simp only: hw_ramp_257_chained hw_ramp_257 simp_thms)

section \<open>Alignment\<close>

text \<open>
  Claim C8. Buffers holding the same bytes at different addresses should give the same
  checksum. They do not: the 257 bytes 0, 1, 2, ..., 255, 0 with seed 0 and every feature
  detected give \<open>0x27910D60\<close> at address 0 and \<open>0x8A13A1CE\<close> at address 1.
\<close>

theorem alignment_changes_checksum:
  "buffer (ramp_at 0) 0 257 = buffer (ramp_at 1) 1 257 \<and>
   fst (aws_checksums_crc32c_hw every_feature initial_cache (ramp_at 0) 0 257 0) = 0x27910D60 \<and>
   fst (aws_checksums_crc32c_hw every_feature initial_cache (ramp_at 1) 1 257 0) = 0x8A13A1CE"
  by (simp only: buffer_ramp_at hw_ramp_257 hw_ramp_257_unaligned simp_thms)

section \<open>The partition into stripes\<close>



end
